theory Spec2Isabelle
  imports Complex_Main "HOL-Library.Log_Nat"
begin

section \<open>Numbers and errors\<close>

text \<open>
  The calculators of \<^verbatim>\<open>manimarks.py\<close> work on Python floats (amounts, rates) and Python
  ints (years).

  Two of them, \<^verbatim>\<open>savings_projection\<close> and \<^verbatim>\<open>estimate_tax\<close>, use only operations that no
  float argument makes raise: sums, products, differences, comparisons, \<^verbatim>\<open>min\<close>, \<^verbatim>\<open>max\<close>
  and divisions by the constants \<^verbatim>\<open>100.0\<close> and \<^verbatim>\<open>12.0\<close>. Whether and where they return
  does not depend on rounding, and they are developed in exact arithmetic: a float is a
  \<^typ>\<open>real\<close>, as the data model of the specification has it, and an int is an
  \<^typ>\<open>int\<close>.

  The other two, \<^verbatim>\<open>lump_sum_growth\<close> and \<^verbatim>\<open>sip_needed\<close>, take a power, which raises
  \<^verbatim>\<open>OverflowError\<close> when the result is out of the range of a float, and
  \<^verbatim>\<open>sip_needed\<close> divides by a difference of floats, which is zero or not according to
  the rounding. They are developed on IEEE 754 binary64 numbers, defined below.
\<close>

datatype py_error = ZeroDivisionError | OverflowError | TypeError

text \<open>Python's \<^verbatim>\<open>a / b\<close> on numbers, in exact arithmetic.\<close>

definition py_div :: "real \<Rightarrow> real \<Rightarrow> py_error + real" where
  "py_div a b = (if b = 0 then Inl ZeroDivisionError else Inr (a / b))"

section \<open>Python floats\<close>

subsection \<open>Rounding to binary64\<close>

text \<open>
  A finite binary64 number is an integer multiple \<^verbatim>\<open>m * 2^(e - 52)\<close> with
  \<^verbatim>\<open>|m| < 2^53\<close> and \<open>-1022 \<le> e \<le> 1023\<close>. A real number \<open>x\<close> is rounded to the nearest
  such multiple at the exponent \<open>e\<close> of \<open>x\<close> itself (the subnormal numbers share the
  exponent \<open>-1022\<close>), a tie going to the even \<open>m\<close>; a result of magnitude \<^verbatim>\<open>2^1024\<close> or
  more is out of range.
\<close>

definition round_half_even :: "real \<Rightarrow> int" where
  "round_half_even t =
     (let f = \<lfloor>t\<rfloor>
      in if t - of_int f < 1 / 2 then f
         else if 1 / 2 < t - of_int f then f + 1
         else if even f then f else f + 1)"

definition float_exponent :: "real \<Rightarrow> int" where
  "float_exponent x = max \<lfloor>log 2 \<bar>x\<bar>\<rfloor> (- 1022)"

definition nearest_double :: "real \<Rightarrow> real" where
  "nearest_double x =
     (if x = 0 then 0
      else let q = 2 powi (float_exponent x - 52)
           in of_int (round_half_even (x / q)) * q)"

text \<open>
  A Python float is a finite binary64 number, an infinity or a NaN. The two zeros of
  binary64 are one value here: they differ only in the sign of a quotient by zero, which
  Python does not compute but raises.
\<close>

datatype pyfloat = Finite real | PosInf | NegInf | NaN

definition to_float :: "real \<Rightarrow> pyfloat" where
  "to_float x =
     (let y = nearest_double x
      in if 2 ^ 1024 \<le> y then PosInf
         else if y \<le> - (2 ^ 1024) then NegInf
         else Finite y)"

text \<open>The real numbers that are finite binary64 numbers.\<close>

definition is_double :: "real \<Rightarrow> bool" where
  "is_double x = (to_float x = Finite x)"

subsection \<open>Arithmetic\<close>

text \<open>
  The sum, the difference, the product and the quotient of two floats are the exact
  results rounded; out of range they are an infinity, silently. Python raises only for a
  quotient by zero.
\<close>

definition float_sign :: "pyfloat \<Rightarrow> real" where
  "float_sign x = (case x of Finite a \<Rightarrow> sgn a | PosInf \<Rightarrow> 1 | NegInf \<Rightarrow> - 1 | NaN \<Rightarrow> 0)"

definition signed_inf :: "real \<Rightarrow> pyfloat" where
  "signed_inf s = (if 0 < s then PosInf else if s < 0 then NegInf else NaN)"

definition float_neg :: "pyfloat \<Rightarrow> pyfloat" where
  "float_neg x =
     (case x of Finite a \<Rightarrow> Finite (- a) | PosInf \<Rightarrow> NegInf | NegInf \<Rightarrow> PosInf | NaN \<Rightarrow> NaN)"

definition float_add :: "pyfloat \<Rightarrow> pyfloat \<Rightarrow> pyfloat" where
  "float_add x y =
     (case (x, y) of
        (NaN, _) \<Rightarrow> NaN
      | (_, NaN) \<Rightarrow> NaN
      | (Finite a, Finite b) \<Rightarrow> to_float (a + b)
      | (Finite a, _) \<Rightarrow> y
      | (_, Finite b) \<Rightarrow> x
      | (PosInf, PosInf) \<Rightarrow> PosInf
      | (NegInf, NegInf) \<Rightarrow> NegInf
      | (PosInf, NegInf) \<Rightarrow> NaN
      | (NegInf, PosInf) \<Rightarrow> NaN)"

definition float_sub :: "pyfloat \<Rightarrow> pyfloat \<Rightarrow> pyfloat" where
  "float_sub x y = float_add x (float_neg y)"

definition float_mul :: "pyfloat \<Rightarrow> pyfloat \<Rightarrow> pyfloat" where
  "float_mul x y =
     (case (x, y) of
        (NaN, _) \<Rightarrow> NaN
      | (_, NaN) \<Rightarrow> NaN
      | (Finite a, Finite b) \<Rightarrow> to_float (a * b)
      | _ \<Rightarrow> signed_inf (float_sign x * float_sign y))"

text \<open>The quotient by a divisor that is not zero.\<close>

definition float_quotient :: "pyfloat \<Rightarrow> pyfloat \<Rightarrow> pyfloat" where
  "float_quotient x y =
     (case (x, y) of
        (NaN, _) \<Rightarrow> NaN
      | (_, NaN) \<Rightarrow> NaN
      | (Finite a, Finite b) \<Rightarrow> to_float (a / b)
      | (Finite a, _) \<Rightarrow> Finite 0
      | (_, Finite b) \<Rightarrow> signed_inf (float_sign x * float_sign y)
      | _ \<Rightarrow> NaN)"

text \<open>Python's \<^verbatim>\<open>x / y\<close> on floats.\<close>

definition float_div :: "pyfloat \<Rightarrow> pyfloat \<Rightarrow> py_error + pyfloat" where
  "float_div x y = (if y = Finite 0 then Inl ZeroDivisionError else Inr (float_quotient x y))"

text \<open>
  An int that meets a float is converted to a float first: to the nearest one, and with
  \<^verbatim>\<open>OverflowError\<close> (``int too large to convert to float'') when that is out of range.
\<close>

definition int_to_float :: "int \<Rightarrow> py_error + real" where
  "int_to_float k =
     (case to_float (of_int k) of Finite y \<Rightarrow> Inr y | _ \<Rightarrow> Inl OverflowError)"

text \<open>
  Python's \<^verbatim>\<open>x ** k\<close> for a float \<open>x\<close> and an int \<open>k\<close>. The exponent is converted to a
  float \<open>y\<close> (an integer again). Then \<^verbatim>\<open>x ** 0\<close> is \<^verbatim>\<open>1.0\<close> for every \<open>x\<close>, also a NaN; a
  NaN and the infinities have their powers; zero to a negative power raises
  \<^verbatim>\<open>ZeroDivisionError\<close>; and otherwise the result is the power rounded (the library
  function \<^verbatim>\<open>pow\<close> is taken to round correctly), with \<^verbatim>\<open>OverflowError\<close> when it is out
  of range. A power too small for a float is a subnormal number or zero, silently.
\<close>

definition float_pow :: "pyfloat \<Rightarrow> int \<Rightarrow> py_error + pyfloat" where
  "float_pow x k =
     (case int_to_float k of
        Inl e \<Rightarrow> Inl e
      | Inr y \<Rightarrow>
          let j = \<lfloor>y\<rfloor>
          in if j = 0 then Inr (Finite 1)
             else case x of
                    NaN \<Rightarrow> Inr NaN
                  | PosInf \<Rightarrow> Inr (if 0 < j then PosInf else Finite 0)
                  | NegInf \<Rightarrow> Inr (if 0 < j then (if odd j then NegInf else PosInf) else Finite 0)
                  | Finite a \<Rightarrow>
                      if a = 0 then (if j < 0 then Inl ZeroDivisionError else Inr (Finite 0))
                      else case to_float (a powi j) of
                             Finite v \<Rightarrow> Inr (Finite v)
                           | _ \<Rightarrow> Inl OverflowError)"

text \<open>Python's \<^verbatim>\<open>x <= y\<close> on floats: false when a NaN is compared.\<close>

definition float_le :: "pyfloat \<Rightarrow> pyfloat \<Rightarrow> bool" where
  "float_le x y =
     (case (x, y) of
        (NaN, _) \<Rightarrow> False
      | (_, NaN) \<Rightarrow> False
      | (Finite a, Finite b) \<Rightarrow> a \<le> b
      | (NegInf, _) \<Rightarrow> True
      | (_, PosInf) \<Rightarrow> True
      | _ \<Rightarrow> False)"

section \<open>Financial calculators\<close>

subsection \<open>\<^verbatim>\<open>savings_projection\<close>\<close>

text \<open>
  \<^verbatim>\<open>
  def savings_projection(monthly_saving, annual_rate_pct, years):
      r = annual_rate_pct / 100.0 / 12.0
      n = years * 12
      fv = 0.0
      for _ in range(n):
          fv = (fv + monthly_saving) * (1 + r)
      return fv
  \<close>
  The \<^verbatim>\<open>for\<close> loop runs \<open>n\<close> times (not at all when \<open>n \<le> 0\<close>) and carries \<open>fv\<close>; it is
  the tail recursion \<open>savings_loop\<close> on the number of iterations left.
\<close>

fun savings_loop :: "nat \<Rightarrow> real \<Rightarrow> real \<Rightarrow> real \<Rightarrow> real" where
  "savings_loop 0 monthly_saving r fv = fv"
| "savings_loop (Suc k) monthly_saving r fv =
     savings_loop k monthly_saving r ((fv + monthly_saving) * (1 + r))"

definition savings_projection :: "real \<Rightarrow> real \<Rightarrow> int \<Rightarrow> real" where
  "savings_projection monthly_saving annual_rate_pct years =
     (let r = annual_rate_pct / 100 / 12;
          n = years * 12
      in savings_loop (nat n) monthly_saving r 0)"

text \<open>
  The recurrence of the specification, written from its words: the balance starts at 0
  and each period it becomes (balance + monthlyAmount) \<open>\<times>\<close> (1 + annualRatePercent/100/12).
  \<open>recurrence_balance m rate k\<close> is the balance after \<open>k\<close> periods.
\<close>

fun recurrence_balance :: "real \<Rightarrow> real \<Rightarrow> nat \<Rightarrow> real" where
  "recurrence_balance monthlyAmount annualRatePercent 0 = 0"
| "recurrence_balance monthlyAmount annualRatePercent (Suc k) =
     (recurrence_balance monthlyAmount annualRatePercent k + monthlyAmount)
       * (1 + annualRatePercent / 100 / 12)"

subsection \<open>\<^verbatim>\<open>lump_sum_growth\<close>\<close>

text \<open>
  \<^verbatim>\<open>
  def lump_sum_growth(principal, annual_rate_pct, years):
      r = annual_rate_pct / 100.0
      return principal * ((1 + r) ** years)
  \<close>
  On floats, with an int \<open>years\<close>: the division, the sum \<^verbatim>\<open>1 + r\<close> (the int 1 is the
  float 1.0), the power and the product, in this order.
\<close>

definition lump_sum_growth :: "pyfloat \<Rightarrow> pyfloat \<Rightarrow> int \<Rightarrow> py_error + pyfloat" where
  "lump_sum_growth principal_amount annual_rate_pct years =
     (case float_div annual_rate_pct (Finite 100) of
        Inl e \<Rightarrow> Inl e
      | Inr r \<Rightarrow>
          case float_pow (float_add (Finite 1) r) years of
            Inl e \<Rightarrow> Inl e
          | Inr p \<Rightarrow> Inr (float_mul principal_amount p))"

subsection \<open>\<^verbatim>\<open>sip_needed\<close>\<close>

text \<open>
  \<^verbatim>\<open>
  def sip_needed(goal_amount, annual_rate_pct, years):
      r = annual_rate_pct / 100.0 / 12.0
      n = years * 12
      if r == 0:
          return goal_amount / n
      payment = goal_amount * r / ((1 + r) ** n - 1)
      return payment
  \<close>
  On floats, with an int \<open>years\<close>, so that \<open>n\<close> is an int: in \<^verbatim>\<open>goal_amount / n\<close> it is
  converted to a float. In the last expression the product \<^verbatim>\<open>goal_amount * r\<close> is
  evaluated first, then the power, the difference and the quotient.
\<close>

definition sip_needed :: "pyfloat \<Rightarrow> pyfloat \<Rightarrow> int \<Rightarrow> py_error + pyfloat" where
  "sip_needed goal_amount annual_rate_pct years =
     (case float_div annual_rate_pct (Finite 100) of
        Inl e \<Rightarrow> Inl e
      | Inr r100 \<Rightarrow>
          case float_div r100 (Finite 12) of
            Inl e \<Rightarrow> Inl e
          | Inr r \<Rightarrow>
              let n = years * 12
              in if r = Finite 0
                 then case int_to_float n of
                        Inl e \<Rightarrow> Inl e
                      | Inr nf \<Rightarrow> float_div goal_amount (Finite nf)
                 else let numerator = float_mul goal_amount r
                      in case float_pow (float_add (Finite 1) r) n of
                           Inl e \<Rightarrow> Inl e
                         | Inr p \<Rightarrow> float_div numerator (float_sub p (Finite 1)))"

text \<open>
  The closed form of the future value of an ordinary annuity, written from the words
  of the specification: \<^verbatim>\<open>payment * ((1+r)^n - 1) / r\<close> with r = rate/100/12 and
  n = years \<open>\<times>\<close> 12. It is not in the source; the round trip of \<open>sip_needed\<close> is stated
  against it, computed on floats as \<^verbatim>\<open>sip_needed\<close> is.
\<close>

definition annuity_future_value :: "pyfloat \<Rightarrow> pyfloat \<Rightarrow> int \<Rightarrow> py_error + pyfloat" where
  "annuity_future_value payment rate years =
     (case float_div rate (Finite 100) of
        Inl e \<Rightarrow> Inl e
      | Inr r100 \<Rightarrow>
          case float_div r100 (Finite 12) of
            Inl e \<Rightarrow> Inl e
          | Inr r \<Rightarrow>
              let n = years * 12
              in case float_pow (float_add (Finite 1) r) n of
                   Inl e \<Rightarrow> Inl e
                 | Inr p \<Rightarrow> float_div (float_mul payment (float_sub p (Finite 1))) r)"

text \<open>
  A number well inside the range of the normal binary64 numbers: a factor between 1/2
  and 2 keeps it normal and finite.
\<close>

definition well_scaled :: "real \<Rightarrow> bool" where
  "well_scaled x = (2 powi (- 1021) \<le> \<bar>x\<bar> \<and> \<bar>x\<bar> \<le> 2 ^ 1022)"

section \<open>Tax estimator\<close>

text \<open>
  \<^verbatim>\<open>
  def estimate_tax(taxable_income, slabs):
      tax = 0.0
      prev_limit = 0.0
      remaining = taxable_income
      for limit, rate in slabs:
          if limit is None:
              taxable_here = remaining
          else:
              taxable_here = max(0.0, min(remaining, limit - prev_limit))
          if taxable_here <= 0:
              prev_limit = limit if limit is not None else prev_limit
              continue
          tax += taxable_here * (rate / 100.0)
          remaining -= taxable_here
          prev_limit = limit if limit is not None else prev_limit
          if remaining <= 0:
              break
      return tax
  \<close>
  A slab is a pair of an upper limit, \<open>None\<close> for the unbounded ``rest'', and a rate in
  percent.
\<close>

type_synonym slab = "real option \<times> real"

text \<open>Lines 107 to 110: the amount taxed in a slab.\<close>

definition taxable_here :: "real option \<Rightarrow> real \<Rightarrow> real \<Rightarrow> real" where
  "taxable_here limit prev_limit remaining =
     (case limit of
        None \<Rightarrow> remaining
      | Some l \<Rightarrow> max 0 (min remaining (l - prev_limit)))"

text \<open>Lines 112 and 116: \<^verbatim>\<open>limit if limit is not None else prev_limit\<close>.\<close>

definition next_prev_limit :: "real option \<Rightarrow> real \<Rightarrow> real" where
  "next_prev_limit limit prev_limit = (case limit of Some l \<Rightarrow> l | None \<Rightarrow> prev_limit)"

text \<open>
  The loop over the slabs, carrying \<open>tax\<close>, \<open>prev_limit\<close> and \<open>remaining\<close>;
  \<^verbatim>\<open>continue\<close> is the recursive call with the tax unchanged, \<^verbatim>\<open>break\<close> returns the tax.
\<close>

fun tax_loop :: "real \<Rightarrow> real \<Rightarrow> real \<Rightarrow> slab list \<Rightarrow> real" where
  "tax_loop tax prev_limit remaining [] = tax"
| "tax_loop tax prev_limit remaining ((limit, rate) # slabs) =
     (let t = taxable_here limit prev_limit remaining
      in if t \<le> 0 then tax_loop tax (next_prev_limit limit prev_limit) remaining slabs
         else let tax' = tax + t * (rate / 100);
                  remaining' = remaining - t
              in if remaining' \<le> 0 then tax'
                 else tax_loop tax' (next_prev_limit limit prev_limit) remaining' slabs)"

definition estimate_tax :: "real \<Rightarrow> slab list \<Rightarrow> real" where
  "estimate_tax taxable_income slabs = tax_loop 0 0 taxable_income slabs"

subsection \<open>The loop, one iteration at a time\<close>

text \<open>
  To speak of the run of \<^verbatim>\<open>estimate_tax\<close> itself (that it ends, that nothing in it
  fails, that it has one result) the loop is also given as a transition relation on
  configurations: the loop about to take the next slab, with the values of \<open>tax\<close>,
  \<open>prev_limit\<close> and \<open>remaining\<close> and the slabs not yet visited; the function having
  returned; or an exception having been raised.

  Two operations of the loop body can raise. The subtraction \<^verbatim>\<open>limit - prev_limit\<close>
  raises \<^verbatim>\<open>TypeError\<close> when \<open>limit\<close> is \<open>None\<close>, and the division \<^verbatim>\<open>rate / 100.0\<close> is
  Python's division, which raises on a zero divisor. The other operations (\<^verbatim>\<open>min\<close>,
  \<^verbatim>\<open>max\<close>, the comparisons, the product, the sum and the difference of floats) raise
  nothing.
\<close>

text \<open>\<^verbatim>\<open>limit - prev_limit\<close>, for a \<open>limit\<close> that may be \<open>None\<close>.\<close>

definition py_sub_limit :: "real option \<Rightarrow> real \<Rightarrow> py_error + real" where
  "py_sub_limit limit prev_limit =
     (case limit of None \<Rightarrow> Inl TypeError | Some l \<Rightarrow> Inr (l - prev_limit))"

text \<open>Lines 107 to 110 as they are executed: the test for \<open>None\<close>, then the subtraction.\<close>

definition taxable_here_run :: "real option \<Rightarrow> real \<Rightarrow> real \<Rightarrow> py_error + real" where
  "taxable_here_run limit prev_limit remaining =
     (if limit = None then Inr remaining
      else case py_sub_limit limit prev_limit of
             Inl e \<Rightarrow> Inl e
           | Inr d \<Rightarrow> Inr (max 0 (min remaining d)))"

datatype config = Loop real real real "slab list" | Return real | Raise py_error

inductive step :: "config \<Rightarrow> config \<Rightarrow> bool" where
  exhausted:
    "step (Loop tax prev_limit remaining []) (Return tax)"
| raise_taxable_here:
    "taxable_here_run limit prev_limit remaining = Inl e \<Longrightarrow>
     step (Loop tax prev_limit remaining ((limit, rate) # slabs)) (Raise e)"
| skip:
    "taxable_here_run limit prev_limit remaining = Inr t \<Longrightarrow> t \<le> 0 \<Longrightarrow>
     step (Loop tax prev_limit remaining ((limit, rate) # slabs))
          (Loop tax (next_prev_limit limit prev_limit) remaining slabs)"
| raise_rate:
    "taxable_here_run limit prev_limit remaining = Inr t \<Longrightarrow> \<not> t \<le> 0 \<Longrightarrow>
     py_div rate 100 = Inl e \<Longrightarrow>
     step (Loop tax prev_limit remaining ((limit, rate) # slabs)) (Raise e)"
| charge:
    "taxable_here_run limit prev_limit remaining = Inr t \<Longrightarrow> \<not> t \<le> 0 \<Longrightarrow>
     py_div rate 100 = Inr q \<Longrightarrow> \<not> remaining - t \<le> 0 \<Longrightarrow>
     step (Loop tax prev_limit remaining ((limit, rate) # slabs))
          (Loop (tax + t * q) (next_prev_limit limit prev_limit) (remaining - t) slabs)"
| charge_break:
    "taxable_here_run limit prev_limit remaining = Inr t \<Longrightarrow> \<not> t \<le> 0 \<Longrightarrow>
     py_div rate 100 = Inr q \<Longrightarrow> remaining - t \<le> 0 \<Longrightarrow>
     step (Loop tax prev_limit remaining ((limit, rate) # slabs))
          (Return (tax + t * q))"

code_pred step .

text \<open>The configuration in which \<^verbatim>\<open>estimate_tax\<close> enters its loop (lines 103 to 105).\<close>

definition initial :: "real \<Rightarrow> slab list \<Rightarrow> config" where
  "initial taxable_income slabs = Loop 0 0 taxable_income slabs"

text \<open>A bound on the number of transitions a configuration still has.\<close>

fun steps_left :: "config \<Rightarrow> nat" where
  "steps_left (Loop tax prev_limit remaining slabs) = Suc (length slabs)"
| "steps_left (Return tax) = 0"
| "steps_left (Raise e) = 0"

subsection \<open>The walk of the specification\<close>

text \<open>
  Written from the words of the specification, not from the source: the walk keeps
  \<open>remaining\<close> (starting at the taxable income), \<open>previousUpperBound\<close> (starting at 0)
  and the tax total, and visits the brackets in order. For a bracket the amount taxed is
  all of \<open>remaining\<close> if the bracket is unbounded, else
  max(0, min(remaining, upperBound \<open>-\<close> previousUpperBound)). If the amount is \<open>\<le> 0\<close> the
  bracket is skipped, and \<open>previousUpperBound\<close> still advances; otherwise
  amount \<open>\<times>\<close> rate / 100 is added to the total, the amount is subtracted from
  \<open>remaining\<close>, \<open>previousUpperBound\<close> advances, and the walk stops once
  \<open>remaining \<le> 0\<close>.

  The specification does not say what \<open>previousUpperBound\<close> advances to at an unbounded
  bracket, which has no upper bound; the walk takes it as a parameter \<open>u\<close>, a function
  of the previous value.
\<close>

record walk =
  w_remaining :: real
  w_previousUpperBound :: real
  w_total :: real
  w_stopped :: bool

definition walk_bracket :: "(real \<Rightarrow> real) \<Rightarrow> walk \<Rightarrow> slab \<Rightarrow> walk" where
  "walk_bracket u w bracket =
     (if w_stopped w then w
      else
        let amount =
              (case fst bracket of
                 None \<Rightarrow> w_remaining w
               | Some upperBound \<Rightarrow>
                   max 0 (min (w_remaining w) (upperBound - w_previousUpperBound w)));
            advanced =
              (case fst bracket of
                 None \<Rightarrow> u (w_previousUpperBound w)
               | Some upperBound \<Rightarrow> upperBound)
        in if amount \<le> 0 then w\<lparr>w_previousUpperBound := advanced\<rparr>
           else w\<lparr>w_remaining := w_remaining w - amount,
                  w_previousUpperBound := advanced,
                  w_total := w_total w + amount * snd bracket / 100,
                  w_stopped := (w_remaining w - amount \<le> 0)\<rparr>)"

definition computeTax :: "(real \<Rightarrow> real) \<Rightarrow> real \<Rightarrow> slab list \<Rightarrow> real" where
  "computeTax u taxableIncome slabTable =
     w_total (foldl (walk_bracket u)
       \<lparr>w_remaining = taxableIncome, w_previousUpperBound = 0, w_total = 0, w_stopped = False\<rparr>
       slabTable)"

section \<open>Properties of the tax estimator\<close>

subsection \<open>Nothing is taxed once nothing remains\<close>

lemma taxable_here_nonpos:
  "remaining \<le> 0 \<Longrightarrow> taxable_here limit prev_limit remaining \<le> 0"
  by (cases limit) (simp_all add: taxable_here_def)

lemma tax_loop_nonpos:
  "remaining \<le> 0 \<Longrightarrow> tax_loop tax prev_limit remaining slabs = tax"
proof (induction slabs arbitrary: prev_limit)
  case Nil
  show ?case by simp
next
  case (Cons s slabs)
  obtain limit rate where s: "s = (limit, rate)" by (cases s)
  from Cons.prems have "taxable_here limit prev_limit remaining \<le> 0"
    by (rule taxable_here_nonpos)
  with Cons show ?case by (simp add: s)
qed

text \<open>
  Hence \<^verbatim>\<open>break\<close> and \<^verbatim>\<open>continue\<close> change nothing in the result: one iteration adds the
  tax on the positive part of \<open>taxable_here\<close> and goes on with the next slab.
\<close>

lemma tax_loop_Cons:
  "tax_loop tax prev_limit remaining ((limit, rate) # slabs) =
     tax_loop (tax + max 0 (taxable_here limit prev_limit remaining) * (rate / 100))
       (next_prev_limit limit prev_limit)
       (remaining - max 0 (taxable_here limit prev_limit remaining)) slabs"
  by (simp add: Let_def tax_loop_nonpos max_def)

text \<open>
  Claim C9. For every taxable income \<open>\<le> 0\<close> and every slab table, whatever its
  contents, \<^verbatim>\<open>estimate_tax\<close> returns 0: no slab adds to the tax.
\<close>

theorem estimate_tax_nonpos_income:
  "taxable_income \<le> 0 \<Longrightarrow> estimate_tax taxable_income slabs = 0"
  by (simp add: estimate_tax_def tax_loop_nonpos)

theorem estimate_tax_nonpos_income_witness:
  "(- 5 :: real) \<le> 0 \<and> estimate_tax (- 5) [(Some 250000, 10), (None, 30), (Some 7, 50)] = 0"
  using estimate_tax_nonpos_income [of "- 5" "[(Some 250000, 10), (None, 30), (Some 7, 50)]"]
  by simp

subsection \<open>The loop computes the walk of the specification\<close>

lemma walk_stopped:
  "w_stopped w \<Longrightarrow> foldl (walk_bracket u) w slabs = w"
  by (induction slabs) (simp_all add: walk_bracket_def)

lemma walk_nonpos:
  "w_remaining w \<le> 0 \<Longrightarrow> w_total (foldl (walk_bracket u) w slabs) = w_total w"
proof (induction slabs arbitrary: w)
  case Nil
  show ?case by simp
next
  case (Cons b slabs)
  show ?case
  proof (cases "w_stopped w")
    case True
    then show ?thesis by (simp only: walk_stopped)
  next
    case False
    obtain limit rate where b: "b = (limit, rate)" by (cases b)
    define w' where
      "w' = w\<lparr>w_previousUpperBound :=
                (case limit of None \<Rightarrow> u (w_previousUpperBound w) | Some l \<Rightarrow> l)\<rparr>"
    have step: "walk_bracket u w b = w'"
      using Cons.prems False by (cases limit) (simp_all add: walk_bracket_def b Let_def w'_def)
    have "w_remaining w' \<le> 0" and "w_total w' = w_total w"
      using Cons.prems by (simp_all add: w'_def)
    with Cons.IH [of w'] show ?thesis by (simp add: step)
  qed
qed

lemma walk_bracket_running:
  "\<not> w_stopped w \<Longrightarrow>
   walk_bracket u w (limit, rate) =
     (let t = taxable_here limit (w_previousUpperBound w) (w_remaining w);
          advanced = (case limit of None \<Rightarrow> u (w_previousUpperBound w) | Some l \<Rightarrow> l)
      in if t \<le> 0 then w\<lparr>w_previousUpperBound := advanced\<rparr>
         else w\<lparr>w_remaining := w_remaining w - t,
                w_previousUpperBound := advanced,
                w_total := w_total w + t * rate / 100,
                w_stopped := (w_remaining w - t \<le> 0)\<rparr>)"
  by (simp add: walk_bracket_def taxable_here_def Let_def)

lemma walk_tax_loop:
  "\<not> w_stopped w \<Longrightarrow>
   w_total (foldl (walk_bracket u) w slabs) =
     tax_loop (w_total w) (w_previousUpperBound w) (w_remaining w) slabs"
proof (induction slabs arbitrary: w)
  case Nil
  show ?case by simp
next
  case (Cons b slabs)
  obtain limit rate where b: "b = (limit, rate)" by (cases b)
  define t where "t = taxable_here limit (w_previousUpperBound w) (w_remaining w)"
  define w' where "w' = walk_bracket u w b"
  have unfold: "foldl (walk_bracket u) w (b # slabs) = foldl (walk_bracket u) w' slabs"
    by (simp add: w'_def)
  have run:
    "w' = (if t \<le> 0
           then w\<lparr>w_previousUpperBound :=
                    (case limit of None \<Rightarrow> u (w_previousUpperBound w) | Some l \<Rightarrow> l)\<rparr>
           else w\<lparr>w_remaining := w_remaining w - t,
                  w_previousUpperBound :=
                    (case limit of None \<Rightarrow> u (w_previousUpperBound w) | Some l \<Rightarrow> l),
                  w_total := w_total w + t * rate / 100,
                  w_stopped := (w_remaining w - t \<le> 0)\<rparr>)"
    unfolding w'_def b t_def using walk_bracket_running [OF Cons.prems, of u limit rate]
    by (simp add: Let_def)
  have loop:
    "tax_loop (w_total w) (w_previousUpperBound w) (w_remaining w) (b # slabs) =
       (if t \<le> 0
        then tax_loop (w_total w) (next_prev_limit limit (w_previousUpperBound w))
               (w_remaining w) slabs
        else if w_remaining w - t \<le> 0 then w_total w + t * (rate / 100)
        else tax_loop (w_total w + t * (rate / 100))
               (next_prev_limit limit (w_previousUpperBound w)) (w_remaining w - t) slabs)"
    by (simp add: b t_def Let_def)
  show ?case
  proof (cases "t \<le> 0")
    case skip: True
    then have w': "\<not> w_stopped w'" "w_total w' = w_total w" "w_remaining w' = w_remaining w"
      using run Cons.prems by simp_all
    show ?thesis
    proof (cases limit)
      case None
      with skip have "w_remaining w \<le> 0" by (simp add: t_def taxable_here_def)
      then show ?thesis by (simp only: walk_nonpos tax_loop_nonpos)
    next
      case (Some l)
      with skip run have "w_previousUpperBound w' = l" by simp
      with Cons.IH [OF w'(1)] w' skip show ?thesis
        by (simp only: unfold loop Some next_prev_limit_def option.case if_True)
    qed
  next
    case charge: False
    have t_le: "limit = None \<Longrightarrow> w_remaining w - t \<le> 0"
      by (simp add: t_def taxable_here_def)
    show ?thesis
    proof (cases "w_remaining w - t \<le> 0")
      case True
      with charge run have "w_stopped w'" and "w_total w' = w_total w + t * rate / 100"
        by simp_all
      with charge True show ?thesis
        by (simp only: unfold loop walk_stopped if_True if_False times_divide_eq_right)
    next
      case False
      with t_le obtain l where Some: "limit = Some l" by (cases limit) auto
      from False charge run
      have w': "\<not> w_stopped w'" "w_total w' = w_total w + t * rate / 100"
        "w_remaining w' = w_remaining w - t" "w_previousUpperBound w' = l"
        by (simp_all add: Some)
      with Cons.IH [OF w'(1)] charge False show ?thesis
        by (simp only: unfold loop Some next_prev_limit_def option.case if_False
              times_divide_eq_right)
    qed
  qed
qed

text \<open>
  Claim C1. For every taxable income and every slab table, \<^verbatim>\<open>estimate_tax\<close> returns
  exactly the result of the walk of the specification (\<open>computeTax\<close>, whatever
  \<open>previousUpperBound\<close> is taken to advance to at an unbounded bracket), and in particular
  \<^verbatim>\<open>estimate_tax(800000, [(250000,0),(500000,5),(1000000,20),(None,30)])\<close> is 72500.
\<close>

theorem estimate_tax_is_specified_walk:
  "estimate_tax taxable_income slabs = computeTax u taxable_income slabs \<and>
   estimate_tax 800000 [(Some 250000, 0), (Some 500000, 5), (Some 1000000, 20), (None, 30)]
     = 72500"
proof
  show "estimate_tax taxable_income slabs = computeTax u taxable_income slabs"
    by (simp add: estimate_tax_def computeTax_def walk_tax_loop)
  show "estimate_tax 800000 [(Some 250000, 0), (Some 500000, 5), (Some 1000000, 20), (None, 30)]
          = 72500"
    by (simp add: estimate_tax_def taxable_here_def next_prev_limit_def Let_def)
qed

subsection \<open>Sign and monotonicity of the tax\<close>

text \<open>
  A rate may be any number, also a negative one, and then the tax is neither
  non-negative nor monotone: the second slab below pays 10 percent back.
\<close>

theorem estimate_tax_negative_rate_counterexample:
  "\<not> 0 \<le> estimate_tax 300000 [(Some 250000, 0), (None, - 10)] \<and>
   \<not> estimate_tax 300000 [(Some 250000, 0), (None, - 10)]
        \<le> estimate_tax 400000 [(Some 250000, 0), (None, - 10)]"
  by (simp add: estimate_tax_def taxable_here_def next_prev_limit_def Let_def)

text \<open>
  With rates that are not negative, the positive part of the amount taxed in a slab
  and what remains after it both grow with \<open>remaining\<close>, and so does the tax.
\<close>

lemma positive_part_mono:
  "rem1 \<le> rem2 \<Longrightarrow>
   max 0 (taxable_here limit prev_limit rem1) \<le> max 0 (taxable_here limit prev_limit rem2)"
  by (cases limit) (auto simp: taxable_here_def)

lemma rest_mono:
  "rem1 \<le> rem2 \<Longrightarrow>
   rem1 - max 0 (taxable_here limit prev_limit rem1) \<le> rem2 - max 0 (taxable_here limit prev_limit rem2)"
  by (cases limit) (auto simp: taxable_here_def)

lemma tax_loop_mono:
  "\<forall>(limit, rate) \<in> set slabs. 0 \<le> rate \<Longrightarrow> tax1 \<le> tax2 \<Longrightarrow> rem1 \<le> rem2 \<Longrightarrow>
   tax_loop tax1 prev_limit rem1 slabs \<le> tax_loop tax2 prev_limit rem2 slabs"
proof (induction slabs arbitrary: tax1 tax2 rem1 rem2 prev_limit)
  case Nil
  then show ?case by simp
next
  case (Cons s slabs)
  obtain limit rate where s: "s = (limit, rate)" by (cases s)
  from Cons.prems(1) have rate: "0 \<le> rate" and rest: "\<forall>(limit, rate) \<in> set slabs. 0 \<le> rate"
    by (simp_all add: s)
  have "max 0 (taxable_here limit prev_limit rem1) * (rate / 100)
          \<le> max 0 (taxable_here limit prev_limit rem2) * (rate / 100)"
    using positive_part_mono [OF Cons.prems(3)] rate by (simp add: mult_right_mono)
  with Cons.prems(2)
  have "tax1 + max 0 (taxable_here limit prev_limit rem1) * (rate / 100)
          \<le> tax2 + max 0 (taxable_here limit prev_limit rem2) * (rate / 100)"
    by simp
  from Cons.IH [OF rest this rest_mono [OF Cons.prems(3)]]
  show ?case by (simp only: s tax_loop_Cons)
qed

text \<open>
  Claim C6, amended. For every fixed slab table all of whose rates are \<open>\<ge> 0\<close> (an
  ascending table or any other): \<^verbatim>\<open>estimate_tax\<close> is \<open>\<ge> 0\<close> for every income \<open>\<ge> 0\<close>, and
  it is monotonically non-decreasing in the income.
\<close>

theorem estimate_tax_nonneg_mono:
  assumes "\<forall>(limit, rate) \<in> set slabs. 0 \<le> rate"
  shows "(0 \<le> income \<longrightarrow> 0 \<le> estimate_tax income slabs) \<and>
         (income1 \<le> income2 \<longrightarrow> estimate_tax income1 slabs \<le> estimate_tax income2 slabs)"
proof (intro conjI impI)
  assume "0 \<le> income"
  with tax_loop_mono [OF assms, of 0 0 0 income 0] show "0 \<le> estimate_tax income slabs"
    by (simp add: estimate_tax_def tax_loop_nonpos)
next
  assume "income1 \<le> income2"
  with tax_loop_mono [OF assms, of 0 0 income1 income2 0]
  show "estimate_tax income1 slabs \<le> estimate_tax income2 slabs"
    by (simp add: estimate_tax_def)
qed

theorem estimate_tax_nonneg_mono_witness:
  "(0 :: real) \<le> 0 \<and> (0 :: real) \<le> 5 \<and> (0 :: real) \<le> 30 \<and>
   (0 :: real) \<le> 300000 \<and> (300000 :: real) \<le> 800000 \<and>
   0 \<le> estimate_tax 300000 [(Some 250000, 0), (Some 500000, 5), (None, 30)] \<and>
   estimate_tax 300000 [(Some 250000, 0), (Some 500000, 5), (None, 30)]
     \<le> estimate_tax 800000 [(Some 250000, 0), (Some 500000, 5), (None, 30)]"
  using estimate_tax_nonneg_mono
    [of "[(Some 250000, 0), (Some 500000, 5), (None, 30)]" 300000 300000 800000]
  by simp

subsection \<open>The run of the loop\<close>

text \<open>
  In the loop the subtraction is reached only with a limit that is not \<open>None\<close>, and the
  divisor of the rate is the constant 100: neither raises.
\<close>

lemma taxable_here_run_value:
  "taxable_here_run limit prev_limit remaining = Inr (taxable_here limit prev_limit remaining)"
  by (cases limit) (simp_all add: taxable_here_run_def py_sub_limit_def taxable_here_def)

lemma rate_percent_value: "py_div rate 100 = Inr (rate / 100)"
  by (simp add: py_div_def)

text \<open>
  A transition is determined by its source, a returned or raised configuration has
  none, a loop configuration always has one, and every transition visits a slab or ends
  the run.
\<close>

lemma step_deterministic: "step c c' \<Longrightarrow> step c c'' \<Longrightarrow> c'' = c'"
  by (induction rule: step.induct) (auto elim: step.cases)

lemma Return_final: "\<not> step (Return tax) c"
  by (auto elim: step.cases)

lemma Raise_final: "\<not> step (Raise e) c"
  by (auto elim: step.cases)

lemma Loop_progress: "\<exists>c'. step (Loop tax prev_limit remaining slabs) c'"
proof (cases slabs)
  case Nil
  then show ?thesis by (auto intro: step.exhausted)
next
  case (Cons s rest)
  obtain limit rate where s: "s = (limit, rate)" by (cases s)
  show ?thesis
  proof (cases "taxable_here_run limit prev_limit remaining")
    case (Inl e)
    then show ?thesis unfolding Cons s by (blast intro: step.raise_taxable_here)
  next
    case t: (Inr t)
    show ?thesis
    proof (cases "t \<le> 0")
      case True
      with t show ?thesis unfolding Cons s by (blast intro: step.skip)
    next
      case False
      show ?thesis
      proof (cases "py_div rate 100")
        case (Inl e)
        with t False show ?thesis unfolding Cons s by (blast intro: step.raise_rate)
      next
        case (Inr q)
        with t False show ?thesis unfolding Cons s
          by (cases "remaining - t \<le> 0") (blast intro: step.charge step.charge_break)+
      qed
    qed
  qed
qed

lemma step_steps_left: "step c c' \<Longrightarrow> steps_left c' < steps_left c"
  by (induction rule: step.induct) simp_all

lemma relpow_steps_left: "(step ^^ n) c c' \<Longrightarrow> steps_left c' + n \<le> steps_left c"
proof (induction n arbitrary: c')
  case 0
  then show ?case by simp
next
  case (Suc n)
  then obtain d where "(step ^^ n) c d" and "step d c'" by auto
  with Suc.IH [of d] step_steps_left [of d c'] show ?case by simp
qed

text \<open>The run from a loop configuration returns what \<open>tax_loop\<close> computes.\<close>

lemma run_tax_loop:
  "step\<^sup>*\<^sup>* (Loop tax prev_limit remaining slabs) (Return (tax_loop tax prev_limit remaining slabs))"
proof (induction slabs arbitrary: tax prev_limit remaining)
  case Nil
  show ?case by (auto intro: step.exhausted)
next
  case (Cons s slabs)
  obtain limit rate where s: "s = (limit, rate)" by (cases s)
  let ?t = "taxable_here limit prev_limit remaining"
  note t = taxable_here_run_value [of limit prev_limit remaining]
  note q = rate_percent_value [of rate]
  consider "?t \<le> 0" | "\<not> ?t \<le> 0" "\<not> remaining - ?t \<le> 0" | "\<not> ?t \<le> 0" "remaining - ?t \<le> 0"
    by blast
  then show ?case
  proof cases
    case 1
    with t have "step (Loop tax prev_limit remaining (s # slabs))
                   (Loop tax (next_prev_limit limit prev_limit) remaining slabs)"
      unfolding s by (rule step.skip)
    also note Cons.IH
    finally show ?thesis using 1 by (simp add: s)
  next
    case 2
    with t q have "step (Loop tax prev_limit remaining (s # slabs))
                 (Loop (tax + ?t * (rate / 100)) (next_prev_limit limit prev_limit) (remaining - ?t) slabs)"
      unfolding s by (intro step.charge)
    also note Cons.IH
    finally show ?thesis using 2 by (simp add: s Let_def)
  next
    case 3
    with t q have "step (Loop tax prev_limit remaining (s # slabs)) (Return (tax + ?t * (rate / 100)))"
      unfolding s by (intro step.charge_break)
    then show ?thesis using 3 by (simp add: s Let_def)
  qed
qed

text \<open>A run that has ended has ended in one configuration.\<close>

lemma run_unique:
  assumes "step\<^sup>*\<^sup>* c d" and "\<And>x. \<not> step d x" and "step\<^sup>*\<^sup>* c d'" and "\<And>x. \<not> step d' x"
  shows "d' = d"
  using assms
proof (induction rule: converse_rtranclp_induct)
  case base
  then show ?case by (auto elim: converse_rtranclpE)
next
  case (step c c1)
  from step.prems(2) show ?case
  proof (cases rule: converse_rtranclpE)
    case base
    with step.hyps(1) step.prems(3) show ?thesis by blast
  next
    case (step c2)
    with step_deterministic [OF \<open>step c c1\<close>, of c2] step.IH step.prems show ?thesis by simp
  qed
qed

text \<open>
  Claim C8. For every taxable income and every slab table, also a malformed one (bounds
  that do not ascend, slabs after an unbounded one; the table may even be empty),
  \<^verbatim>\<open>estimate_tax\<close> terminates without raising an error and its result is determined by
  its arguments: the run from the initial configuration reaches the return of
  \<open>estimate_tax taxable_income slabs\<close> and of no other value, it reaches no raised
  exception, no configuration on the way is stuck, and no run takes more than one
  transition per slab plus one.
\<close>

theorem estimate_tax_terminates_deterministic:
  "step\<^sup>*\<^sup>* (initial taxable_income slabs) (Return (estimate_tax taxable_income slabs)) \<and>
   (\<forall>t. step\<^sup>*\<^sup>* (initial taxable_income slabs) (Return t) \<longrightarrow>
        t = estimate_tax taxable_income slabs) \<and>
   (\<forall>e. \<not> step\<^sup>*\<^sup>* (initial taxable_income slabs) (Raise e)) \<and>
   (\<forall>c. step\<^sup>*\<^sup>* (initial taxable_income slabs) c \<longrightarrow>
        (\<exists>t. c = Return t) \<or> (\<exists>c'. step c c')) \<and>
   (\<forall>n c. (step ^^ n) (initial taxable_income slabs) c \<longrightarrow> n \<le> Suc (length slabs))"
proof (intro conjI allI impI notI)
  show run: "step\<^sup>*\<^sup>* (initial taxable_income slabs) (Return (estimate_tax taxable_income slabs))"
    unfolding initial_def estimate_tax_def by (rule run_tax_loop)
  show "t = estimate_tax taxable_income slabs"
    if "step\<^sup>*\<^sup>* (initial taxable_income slabs) (Return t)" for t
    using run_unique [OF run Return_final that Return_final] by simp
  show no_raise: False if "step\<^sup>*\<^sup>* (initial taxable_income slabs) (Raise e)" for e
    using run_unique [OF run Return_final that Raise_final] by simp
  show "(\<exists>t. c = Return t) \<or> (\<exists>c'. step c c')"
    if "step\<^sup>*\<^sup>* (initial taxable_income slabs) c" for c
    using that no_raise by (cases c) (auto simp: Loop_progress)
  show "n \<le> Suc (length slabs)" if "(step ^^ n) (initial taxable_income slabs) c" for n c
    using relpow_steps_left [OF that] by (simp add: initial_def)
qed

text \<open>
  A malformed table: the second bound is below the first, and a slab follows the
  unbounded one. The first slab takes 500000 at 5 percent, the second is skipped, the
  third takes the remaining 300000 at 30 percent and the loop breaks.
\<close>

theorem estimate_tax_terminates_deterministic_witness:
  "[(Some 500000, 5), (Some 250000, 10), (None, 30), (Some 7, 1 :: real)] \<noteq> [] \<and>
   step\<^sup>*\<^sup>* (initial 800000 [(Some 500000, 5), (Some 250000, 10), (None, 30), (Some 7, 1)])
     (Return 115000)"
  using estimate_tax_terminates_deterministic
    [of 800000 "[(Some 500000, 5), (Some 250000, 10), (None, 30), (Some 7, 1)]"]
  by (simp add: estimate_tax_def taxable_here_def next_prev_limit_def Let_def)

section \<open>Properties of \<^verbatim>\<open>savings_projection\<close>\<close>

lemma savings_loop_recurrence:
  "savings_loop k m (rate / 100 / 12) (recurrence_balance m rate j) = recurrence_balance m rate (j + k)"
proof (induction k arbitrary: j)
  case 0
  show ?case by simp
next
  case (Suc k)
  have "savings_loop (Suc k) m (rate / 100 / 12) (recurrence_balance m rate j) =
        savings_loop k m (rate / 100 / 12) (recurrence_balance m rate (Suc j))"
    by simp
  also have "\<dots> = recurrence_balance m rate (Suc j + k)" by (rule Suc.IH)
  finally show ?case by simp
qed

lemma savings_projection_eq:
  "savings_projection m rate years = recurrence_balance m rate (nat (years * 12))"
  using savings_loop_recurrence [of "nat (years * 12)" m rate 0]
  by (simp add: savings_projection_def)

lemma recurrence_balance_nonneg:
  "0 \<le> m \<Longrightarrow> 0 \<le> rate \<Longrightarrow> 0 \<le> recurrence_balance m rate k"
  by (induction k) simp_all

lemma recurrence_balance_mono:
  "0 \<le> m \<Longrightarrow> 0 \<le> r1 \<Longrightarrow> r1 \<le> r2 \<Longrightarrow>
   recurrence_balance m r1 k \<le> recurrence_balance m r2 k"
proof (induction k)
  case 0
  show ?case by simp
next
  case (Suc k)
  have "(recurrence_balance m r1 k + m) * (1 + r1 / 100 / 12)
          \<le> (recurrence_balance m r2 k + m) * (1 + r2 / 100 / 12)"
  proof (rule mult_mono)
    show "recurrence_balance m r1 k + m \<le> recurrence_balance m r2 k + m"
      using Suc by simp
    show "1 + r1 / 100 / 12 \<le> 1 + r2 / 100 / 12" using Suc.prems by simp
    show "0 \<le> recurrence_balance m r2 k + m"
      using recurrence_balance_nonneg [of m r2 k] Suc.prems by simp
    show "0 \<le> 1 + r1 / 100 / 12" using Suc.prems by simp
  qed
  then show ?case by simp
qed

text \<open>
  Claim C2. For every monthly amount, annual rate and \<open>years \<ge> 0\<close>,
  \<^verbatim>\<open>savings_projection\<close> equals the result of the recurrence after \<open>years \<times> 12\<close> periods
  (the balance starts at 0 and becomes (balance + monthlyAmount) \<open>\<times>\<close>
  (1 + annualRatePercent/100/12) each period); for \<open>years = 0\<close> the result is 0, and for
  a monthly amount \<open>\<ge> 0\<close> with a rate \<open>\<ge> 0\<close> it is \<open>\<ge> 0\<close>.
\<close>

theorem savings_projection_is_recurrence:
  assumes "0 \<le> years"
  shows "savings_projection monthlyAmount annualRatePercent years =
           recurrence_balance monthlyAmount annualRatePercent (nat (years * 12)) \<and>
         (years = 0 \<longrightarrow> savings_projection monthlyAmount annualRatePercent years = 0) \<and>
         (0 \<le> monthlyAmount \<and> 0 \<le> annualRatePercent \<longrightarrow>
            0 \<le> savings_projection monthlyAmount annualRatePercent years)"
  by (simp add: savings_projection_eq recurrence_balance_nonneg)

theorem savings_projection_is_recurrence_witness:
  "(0 :: int) \<le> 1 \<and> (0 :: real) \<le> 5000 \<and> (0 :: real) \<le> 12 \<and>
   savings_projection 5000 12 1 = recurrence_balance 5000 12 (nat (1 * 12)) \<and>
   savings_projection 5000 12 0 = 0 \<and>
   0 \<le> savings_projection 5000 12 1"
  using savings_projection_is_recurrence [of 1 5000 12]
    savings_projection_is_recurrence [of 0 5000 12]
  by simp

section \<open>Properties of the floats\<close>

subsection \<open>Rounding\<close>

text \<open>Rounding to an integer is exact on the integers, monotone and odd.\<close>

lemma round_half_even_of_int [simp]: "round_half_even (of_int m) = m"
  by (simp add: round_half_even_def)

lemma round_half_even_floor:
  "\<lfloor>t\<rfloor> \<le> round_half_even t" "round_half_even t \<le> \<lfloor>t\<rfloor> + 1"
  by (simp_all add: round_half_even_def Let_def)

lemma round_half_even_mono:
  assumes "s \<le> t"
  shows "round_half_even s \<le> round_half_even t"
proof (cases "\<lfloor>s\<rfloor> = \<lfloor>t\<rfloor>")
  case True
  with assms show ?thesis by (auto simp: round_half_even_def Let_def)
next
  case False
  with floor_mono [OF assms] have "\<lfloor>s\<rfloor> + 1 \<le> \<lfloor>t\<rfloor>" by linarith
  with round_half_even_floor(2) [of s] round_half_even_floor(1) [of t]
  show ?thesis by linarith
qed

lemma round_half_even_minus: "round_half_even (- t) = - round_half_even t"
proof (cases "t = of_int \<lfloor>t\<rfloor>")
  case True
  then obtain m where m: "t = of_int m" ..
  have "round_half_even (- real_of_int m) = - m"
    using round_half_even_of_int [of "- m"] by simp
  then show ?thesis by (simp add: m)
next
  case False
  then have fl: "\<lfloor>- t\<rfloor> = - \<lfloor>t\<rfloor> - 1"
    by (simp add: floor_minus ceiling_altdef)
  have "of_int \<lfloor>t\<rfloor> < t" using False by (metis floor_less_cancel less_eq_real_def linorder_not_le of_int_floor_le)
  then show ?thesis
    unfolding round_half_even_def Let_def fl by (auto simp: algebra_simps)
qed

text \<open>
  The exponent of a number is that of the power of two below it, and at least
  \<open>-1022\<close>.
\<close>

lemma floor_log2_bounds:
  assumes "x \<noteq> 0"
  shows "2 powi \<lfloor>log 2 \<bar>x\<bar>\<rfloor> \<le> \<bar>x\<bar>" and "\<bar>x\<bar> < 2 powi (\<lfloor>log 2 \<bar>x\<bar>\<rfloor> + 1)"
proof -
  have pos: "0 < \<bar>x\<bar>" using assms by simp
  from floor_log_eq_powr_iff [OF pos, of 2 "\<lfloor>log 2 \<bar>x\<bar>\<rfloor>"]
  have "2 powr (of_int \<lfloor>log 2 \<bar>x\<bar>\<rfloor>) \<le> \<bar>x\<bar>" and "\<bar>x\<bar> < 2 powr (of_int (\<lfloor>log 2 \<bar>x\<bar>\<rfloor> + 1))"
    by simp_all
  then show "2 powi \<lfloor>log 2 \<bar>x\<bar>\<rfloor> \<le> \<bar>x\<bar>" and "\<bar>x\<bar> < 2 powi (\<lfloor>log 2 \<bar>x\<bar>\<rfloor> + 1)"
    by (simp_all only: powr_real_of_int' [of 2, simplified])
qed

lemma floor_log2_eq:
  assumes "2 powi k \<le> \<bar>x\<bar>" "\<bar>x\<bar> < 2 powi (k + 1)"
  shows "\<lfloor>log 2 \<bar>x\<bar>\<rfloor> = k"
proof -
  have "0 < (2::real) powi k" by simp
  with assms(1) have pos: "0 < \<bar>x\<bar>" by linarith
  have "2 powr (of_int k) \<le> \<bar>x\<bar>" "\<bar>x\<bar> < 2 powr (of_int (k + 1))"
    using assms by (simp_all only: powr_real_of_int' [of 2, simplified])
  then show ?thesis
    using floor_log_eq_powr_iff [OF pos, of 2 k] by simp
qed

lemma float_exponent_minus [simp]: "float_exponent (- x) = float_exponent x"
  by (simp add: float_exponent_def)

lemma float_exponent_upper:
  assumes "x \<noteq> 0"
  shows "\<bar>x\<bar> < 2 powi (float_exponent x + 1)"
proof -
  have "\<bar>x\<bar> < 2 powi (\<lfloor>log 2 \<bar>x\<bar>\<rfloor> + 1)" using assms by (rule floor_log2_bounds)
  also have "\<dots> \<le> 2 powi (float_exponent x + 1)"
    by (rule power_int_increasing) (simp_all add: float_exponent_def)
  finally show ?thesis .
qed

lemma float_exponent_normal:
  assumes "2 powi (- 1022) \<le> \<bar>x\<bar>"
  shows "float_exponent x = \<lfloor>log 2 \<bar>x\<bar>\<rfloor>"
proof -
  have "0 < (2::real) powi (- 1022)" by (rule zero_less_power_int) simp
  with assms have x: "x \<noteq> 0" by auto
  have "- 1022 \<le> \<lfloor>log 2 \<bar>x\<bar>\<rfloor>"
  proof (rule ccontr)
    assume "\<not> - 1022 \<le> \<lfloor>log 2 \<bar>x\<bar>\<rfloor>"
    then have "\<lfloor>log 2 \<bar>x\<bar>\<rfloor> + 1 \<le> - 1022" by linarith
    then have "(2::real) powi (\<lfloor>log 2 \<bar>x\<bar>\<rfloor> + 1) \<le> 2 powi (- 1022)"
      by (rule power_int_increasing) simp
    with floor_log2_bounds(2) [OF x] assms show False by linarith
  qed
  then show ?thesis by (simp add: float_exponent_def)
qed

lemma float_exponent_lower:
  assumes "2 powi (- 1022) \<le> \<bar>x\<bar>"
  shows "2 powi (float_exponent x) \<le> \<bar>x\<bar>"
proof -
  have "0 < (2::real) powi (- 1022)" by (rule zero_less_power_int) simp
  with assms have x: "x \<noteq> 0" by auto
  show ?thesis
    unfolding float_exponent_normal [OF assms] using x by (rule floor_log2_bounds)
qed

lemma float_exponent_mono:
  assumes "x \<noteq> 0" "\<bar>x\<bar> \<le> \<bar>y\<bar>"
  shows "float_exponent x \<le> float_exponent y"
proof -
  have "log 2 \<bar>x\<bar> \<le> log 2 \<bar>y\<bar>" using assms by simp
  then have "\<lfloor>log 2 \<bar>x\<bar>\<rfloor> \<le> \<lfloor>log 2 \<bar>y\<bar>\<rfloor>" by (rule floor_mono)
  then show ?thesis by (simp add: float_exponent_def)
qed

lemma float_exponent_eq:
  assumes "2 powi k \<le> \<bar>x\<bar>" "\<bar>x\<bar> < 2 powi (k + 1)"
  shows "float_exponent x = max k (- 1022)"
  using floor_log2_eq [OF assms] by (simp add: float_exponent_def)

text \<open>
  Rounding to a float is odd and monotone, and exact on the powers of two and on the
  integers up to \<^verbatim>\<open>2^53\<close>.
\<close>

lemma nearest_double_minus: "nearest_double (- x) = - nearest_double x"
  by (simp add: nearest_double_def Let_def round_half_even_minus)

lemma nearest_double_nonneg:
  assumes "0 \<le> x"
  shows "0 \<le> nearest_double x"
proof (cases "x = 0")
  case True
  then show ?thesis by (simp add: nearest_double_def)
next
  case False
  let ?q = "(2::real) powi (float_exponent x - 52)"
  have q: "0 < ?q" by (rule zero_less_power_int) simp
  with assms have "0 \<le> x / ?q" by simp
  then have "round_half_even 0 \<le> round_half_even (x / ?q)" by (rule round_half_even_mono)
  then have "0 \<le> round_half_even (x / ?q)" using round_half_even_of_int [of 0] by simp
  with q False show ?thesis by (simp add: nearest_double_def Let_def)
qed

lemma nearest_double_upper:
  assumes "0 < x"
  shows "nearest_double x \<le> 2 powi (float_exponent x + 1)"
proof -
  let ?e = "float_exponent x"
  let ?q = "(2::real) powi (?e - 52)"
  have q: "0 < ?q" by (rule zero_less_power_int) simp
  have split: "(2::real) powi (?e + 1) = 2 ^ 53 * ?q"
    using power_int_add [of "2::real" 53 "?e - 52"] by (simp add: add.commute)
  have "x < 2 powi (?e + 1)" using float_exponent_upper [of x] assms by simp
  then have "x / ?q \<le> 2 ^ 53" using q by (simp add: split pos_divide_le_eq)
  then have "x / ?q \<le> of_int (2 ^ 53)" by simp
  then have "round_half_even (x / ?q) \<le> round_half_even (of_int (2 ^ 53))"
    by (rule round_half_even_mono)
  then have "round_half_even (x / ?q) \<le> 2 ^ 53" by (simp only: round_half_even_of_int)
  then have "real_of_int (round_half_even (x / ?q)) \<le> 2 ^ 53"
    by (metis of_int_le_iff of_int_numeral of_int_power)
  then have "real_of_int (round_half_even (x / ?q)) * ?q \<le> 2 ^ 53 * ?q"
    using q by (simp add: mult_right_mono)
  with assms show ?thesis by (simp add: nearest_double_def Let_def split)
qed

lemma nearest_double_lower:
  assumes "2 powi (- 1022) \<le> x"
  shows "2 powi (float_exponent x) \<le> nearest_double x"
proof -
  let ?e = "float_exponent x"
  let ?q = "(2::real) powi (?e - 52)"
  have q: "0 < ?q" by (rule zero_less_power_int) simp
  have "0 < (2::real) powi (- 1022)" by (rule zero_less_power_int) simp
  with assms have x: "0 < x" by linarith
  have split: "(2::real) powi ?e = 2 ^ 52 * ?q"
    using power_int_add [of "2::real" 52 "?e - 52"] by simp
  have "2 powi ?e \<le> x" using float_exponent_lower [of x] assms x by simp
  then have "of_int (2 ^ 52) \<le> x / ?q" using q by (simp add: split pos_le_divide_eq)
  then have "round_half_even (of_int (2 ^ 52)) \<le> round_half_even (x / ?q)"
    by (rule round_half_even_mono)
  then have "2 ^ 52 \<le> round_half_even (x / ?q)" by (simp only: round_half_even_of_int)
  then have "2 ^ 52 \<le> real_of_int (round_half_even (x / ?q))"
    by (metis of_int_le_iff of_int_numeral of_int_power)
  then have "2 ^ 52 * ?q \<le> real_of_int (round_half_even (x / ?q)) * ?q"
    using q by (simp add: mult_right_mono)
  with x show ?thesis by (simp add: nearest_double_def Let_def split)
qed

lemma nearest_double_mono_pos:
  assumes "0 < x" "x \<le> y"
  shows "nearest_double x \<le> nearest_double y"
proof (cases "float_exponent x = float_exponent y")
  case True
  let ?q = "(2::real) powi (float_exponent y - 52)"
  have q: "0 < ?q" by (rule zero_less_power_int) simp
  have "x / ?q \<le> y / ?q" using assms q by (simp add: divide_right_mono)
  then have "round_half_even (x / ?q) \<le> round_half_even (y / ?q)" by (rule round_half_even_mono)
  then have "real_of_int (round_half_even (x / ?q)) * ?q \<le> real_of_int (round_half_even (y / ?q)) * ?q"
    using q by (simp add: mult_right_mono)
  with assms True show ?thesis by (simp add: nearest_double_def Let_def)
next
  case False
  with float_exponent_mono [of x y] assms have lt: "float_exponent x + 1 \<le> float_exponent y"
    by simp
  then have "- 1022 < float_exponent y" by (simp add: float_exponent_def)
  then have ey: "float_exponent y = \<lfloor>log 2 \<bar>y\<bar>\<rfloor>" by (simp add: float_exponent_def)
  have "y \<noteq> 0" using assms by simp
  from floor_log2_bounds(1) [OF this] ey \<open>- 1022 < float_exponent y\<close>
  have "2 powi (- 1022) \<le> \<bar>y\<bar>"
    using power_int_increasing [of "- 1022" "float_exponent y" "2::real"] by simp
  then have normal: "2 powi (- 1022) \<le> y" using assms by simp
  have "nearest_double x \<le> 2 powi (float_exponent x + 1)"
    using assms(1) by (rule nearest_double_upper)
  also have "\<dots> \<le> 2 powi (float_exponent y)"
    using lt by (rule power_int_increasing) simp
  also have "\<dots> \<le> nearest_double y" using normal by (rule nearest_double_lower)
  finally show ?thesis .
qed

lemma nearest_double_mono:
  assumes "x \<le> y"
  shows "nearest_double x \<le> nearest_double y"
proof -
  consider "0 < x" | "x \<le> 0" "0 \<le> y" | "y < 0" using assms by linarith
  then show ?thesis
  proof cases
    case 1
    then show ?thesis using assms by (rule nearest_double_mono_pos)
  next
    case 2
    then have "nearest_double (- x) \<ge> 0" "nearest_double y \<ge> 0"
      by (simp_all add: nearest_double_nonneg)
    then show ?thesis by (simp add: nearest_double_minus)
  next
    case 3
    then have "nearest_double (- y) \<le> nearest_double (- x)"
      using assms by (intro nearest_double_mono_pos) simp_all
    then show ?thesis by (simp add: nearest_double_minus)
  qed
qed

lemma nearest_double_exact:
  assumes "x / 2 powi (float_exponent x - 52) = of_int m"
  shows "nearest_double x = x"
proof (cases "x = 0")
  case True
  then show ?thesis by (simp add: nearest_double_def)
next
  case False
  have "(2::real) powi (float_exponent x - 52) \<noteq> 0" by simp
  with assms have "x = of_int m * 2 powi (float_exponent x - 52)"
    by (simp add: nonzero_divide_eq_eq)
  with False assms show ?thesis
    by (simp only: nearest_double_def Let_def round_half_even_of_int if_False)
qed

lemma nearest_double_power_int:
  assumes "- 1074 \<le> k"
  shows "nearest_double (2 powi k) = 2 powi k"
proof -
  have e: "float_exponent (2 powi k) = max k (- 1022)"
    by (rule float_exponent_eq) (simp_all add: power_int_strict_increasing)
  have "0 \<le> k - (max k (- 1022) - 52)" using assms by simp
  then have "(2::real) powi (k - (max k (- 1022) - 52)) = of_int (2 ^ nat (k - (max k (- 1022) - 52)))"
    by (simp add: power_int_nonneg_exp)
  then have "(2::real) powi k / 2 powi (float_exponent (2 powi k) - 52)
               = of_int (2 ^ nat (k - (max k (- 1022) - 52)))"
    by (simp add: e power_int_diff)
  then show ?thesis by (rule nearest_double_exact)
qed

lemma nearest_double_of_int:
  assumes "\<bar>n\<bar> \<le> 2 ^ 53"
  shows "nearest_double (of_int n) = of_int n"
proof (cases "n = 0")
  case True
  then show ?thesis by (simp add: nearest_double_def)
next
  case False
  let ?x = "real_of_int n"
  let ?l = "\<lfloor>log 2 \<bar>?x\<bar>\<rfloor>"
  have x: "?x \<noteq> 0" using False by simp
  have one: "1 \<le> \<bar>?x\<bar>" using False by (metis of_int_abs of_int_1_le_iff zero_less_abs_iff int_one_le_iff_zero_less)
  have l0: "0 \<le> ?l"
  proof (rule ccontr)
    assume "\<not> 0 \<le> ?l"
    then have "?l + 1 \<le> 0" by linarith
    then have "(2::real) powi (?l + 1) \<le> 2 powi 0" by (rule power_int_increasing) simp
    with floor_log2_bounds(2) [OF x] one show False by simp
  qed
  then have e: "float_exponent ?x = ?l" by (simp add: float_exponent_def)
  have l53: "?l \<le> 53"
  proof (rule ccontr)
    assume "\<not> ?l \<le> 53"
    then have "54 \<le> ?l" by linarith
    then have "(2::real) powi 54 \<le> 2 powi ?l" by (rule power_int_increasing) simp
    with floor_log2_bounds(1) [OF x] have "2 ^ 54 \<le> \<bar>?x\<bar>" by simp
    moreover have "\<bar>?x\<bar> \<le> 2 ^ 53" using assms by (metis of_int_abs of_int_le_iff of_int_numeral of_int_power)
    ultimately show False by simp
  qed
  show ?thesis
  proof (cases "?l \<le> 52")
    case True
    then have "(2::real) powi (52 - ?l) = of_int (2 ^ nat (52 - ?l))"
      by (simp add: power_int_nonneg_exp)
    then have "?x / 2 powi (float_exponent ?x - 52) = of_int (n * 2 ^ nat (52 - ?l))"
      unfolding e using power_int_minus [of "2::real" "52 - ?l"] by (simp add: field_simps)
    then show ?thesis by (rule nearest_double_exact)
  next
    case False
    with l53 have l: "?l = 53" by linarith
    with floor_log2_bounds(1) [OF x] have "2 ^ 53 \<le> \<bar>?x\<bar>" by simp
    then have "2 ^ 53 \<le> \<bar>n\<bar>" by (metis of_int_abs of_int_le_iff of_int_numeral of_int_power)
    with assms have "\<bar>n\<bar> = 2 ^ 53" by simp
    then have "even n" by (metis even_abs_add_iff even_add even_numeral even_power zero_less_numeral)
    then obtain m where m: "n = 2 * m" by (elim evenE)
    have "?x / 2 powi (float_exponent ?x - 52) = of_int m"
      unfolding e l by (simp add: m)
    then show ?thesis by (rule nearest_double_exact)
  qed
qed

text \<open>The exponent without the logarithm, for evaluation.\<close>

lemma float_exponent_code [code]:
  "float_exponent x =
     (if x = 0 then 0
      else max (if 1 \<le> \<bar>x\<bar> then bitlen \<lfloor>\<bar>x\<bar>\<rfloor> - 1 else - bitlen (\<lceil>1 / \<bar>x\<bar>\<rceil> - 1)) (- 1022))"
proof (cases "x = 0")
  case True
  then show ?thesis by (simp add: float_exponent_def log_def)
next
  case False
  have "\<lfloor>log 2 \<bar>x\<bar>\<rfloor> = (if 1 \<le> \<bar>x\<bar> then bitlen \<lfloor>\<bar>x\<bar>\<rfloor> - 1 else - bitlen (\<lceil>1 / \<bar>x\<bar>\<rceil> - 1))"
  proof (cases "1 \<le> \<bar>x\<bar>")
    case True
    let ?m = "\<lfloor>\<bar>x\<bar>\<rfloor>"
    have m: "0 < ?m" using True by simp
    from bitlen_bounds [OF m]
    have lo: "2 ^ nat (bitlen ?m - 1) \<le> ?m" and hi: "?m < 2 ^ nat (bitlen ?m)" by simp_all
    have b: "1 \<le> bitlen ?m" using m by (simp add: bitlen_alt_def)
    have "real_of_int (2 ^ nat (bitlen ?m - 1)) \<le> real_of_int ?m" using lo by (simp only: of_int_le_iff)
    also have "\<dots> \<le> \<bar>x\<bar>" by simp
    finally have 1: "2 powi (bitlen ?m - 1) \<le> \<bar>x\<bar>" using b by (simp add: power_int_nonneg_exp)
    have "?m + 1 \<le> 2 ^ nat (bitlen ?m)" using hi by simp
    then have "real_of_int (?m + 1) \<le> real_of_int (2 ^ nat (bitlen ?m))" by (simp only: of_int_le_iff)
    moreover have "\<bar>x\<bar> < real_of_int (?m + 1)" by linarith
    ultimately have "\<bar>x\<bar> < real_of_int (2 ^ nat (bitlen ?m))" by linarith
    then have 2: "\<bar>x\<bar> < 2 powi (bitlen ?m - 1 + 1)" using b by (simp add: power_int_nonneg_exp)
    from floor_log2_eq [OF 1 2] True show ?thesis by simp
  next
    case small: False
    let ?y = "1 / \<bar>x\<bar>"
    let ?c = "\<lceil>?y\<rceil>"
    let ?b = "bitlen (?c - 1)"
    have x: "0 < \<bar>x\<bar>" using False by simp
    have y: "1 < ?y" using small x by simp
    then have c: "0 < ?c - 1" by linarith
    from bitlen_bounds [OF c]
    have lo: "2 ^ nat (?b - 1) \<le> ?c - 1" and hi: "?c - 1 < 2 ^ nat ?b" by simp_all
    have b: "1 \<le> ?b" using c by (simp add: bitlen_alt_def)
    have "?c \<le> 2 ^ nat ?b" using hi by simp
    then have "real_of_int ?c \<le> real_of_int (2 ^ nat ?b)" by (simp only: of_int_le_iff)
    moreover have "?y \<le> real_of_int ?c" by simp
    ultimately have "?y \<le> real_of_int (2 ^ nat ?b)" by linarith
    then have "?y \<le> 2 ^ nat ?b" by simp
    then have "1 \<le> 2 ^ nat ?b * \<bar>x\<bar>" using x by (simp add: field_simps)
    then have 1: "2 powi (- ?b) \<le> \<bar>x\<bar>"
      using b by (simp add: power_int_minus power_int_nonneg_exp field_simps)
    have "real_of_int (2 ^ nat (?b - 1)) \<le> real_of_int (?c - 1)" using lo by (simp only: of_int_le_iff)
    moreover have "real_of_int (?c - 1) < ?y" by linarith
    ultimately have "real_of_int (2 ^ nat (?b - 1)) < ?y" by linarith
    then have "2 ^ nat (?b - 1) < ?y" by simp
    then have lt: "\<bar>x\<bar> * 2 ^ nat (?b - 1) < 1" using x by (simp add: field_simps)
    have P: "0 < (2::real) ^ nat (?b - 1)" by simp
    have "(2::real) powi (- ?b + 1) = inverse (2 powi (?b - 1))"
      using power_int_minus [of "2::real" "?b - 1"] by simp
    also have "\<dots> = inverse (2 ^ nat (?b - 1))" using b by (simp add: power_int_nonneg_exp)
    finally have "(2::real) powi (- ?b + 1) * 2 ^ nat (?b - 1) = 1" by simp
    with lt have "\<bar>x\<bar> * 2 ^ nat (?b - 1) < 2 powi (- ?b + 1) * 2 ^ nat (?b - 1)" by simp
    then have 2: "\<bar>x\<bar> < 2 powi (- ?b + 1)" by (simp only: mult_less_cancel_right_pos [OF P])
    from floor_log2_eq [OF 1 2] small show ?thesis by simp
  qed
  with False show ?thesis by (simp add: float_exponent_def)
qed

text \<open>
  Conversion to a float: finite up to \<^verbatim>\<open>2^1023\<close>, monotone, exact on the finite
  floats.
\<close>

lemma to_float_0 [simp]: "to_float 0 = Finite 0"
  by (simp add: to_float_def nearest_double_def)

lemma nearest_double_abs_le:
  assumes "\<bar>x\<bar> \<le> 2 powi k" "- 1074 \<le> k"
  shows "\<bar>nearest_double x\<bar> \<le> 2 powi k"
proof -
  have "nearest_double x \<le> nearest_double (2 powi k)"
    using assms(1) by (intro nearest_double_mono) simp
  moreover have "nearest_double (- (2 powi k)) \<le> nearest_double x"
    using assms(1) by (intro nearest_double_mono) simp
  ultimately show ?thesis
    by (simp add: nearest_double_minus nearest_double_power_int [OF assms(2)] abs_le_iff)
qed

lemma to_float_finite:
  assumes "\<bar>x\<bar> \<le> 2 ^ 1023"
  shows "to_float x = Finite (nearest_double x)"
proof -
  have "\<bar>nearest_double x\<bar> \<le> 2 powi 1023"
    using assms by (intro nearest_double_abs_le) simp_all
  then have "\<bar>nearest_double x\<bar> \<le> 2 ^ 1023" by simp
  then show ?thesis by (simp add: to_float_def Let_def abs_le_iff)
qed

lemma to_float_cases:
  obtains (fin) "to_float x = Finite (nearest_double x)" "\<bar>nearest_double x\<bar> < 2 ^ 1024"
  | (pos) "to_float x = PosInf" "2 ^ 1024 \<le> nearest_double x"
  | (neg) "to_float x = NegInf" "nearest_double x \<le> - (2 ^ 1024)"
  by (cases "2 ^ 1024 \<le> nearest_double x"; cases "nearest_double x \<le> - (2 ^ 1024)")
     (auto simp: to_float_def Let_def)

lemma to_float_mono:
  assumes "x \<le> y"
  shows "float_le (to_float x) (to_float y)"
  using nearest_double_mono [OF assms]
  by (auto simp: to_float_def Let_def float_le_def)

lemma is_double_nearest: "is_double x \<Longrightarrow> nearest_double x = x"
  by (auto simp: is_double_def to_float_def Let_def split: if_splits)

lemma is_double_bound: "is_double x \<Longrightarrow> \<bar>x\<bar> < 2 ^ 1024"
  by (auto simp: is_double_def to_float_def Let_def split: if_splits)

lemma is_double_of_int:
  assumes "\<bar>n\<bar> \<le> 2 ^ 53"
  shows "is_double (of_int n)"
proof -
  have "\<bar>real_of_int n\<bar> \<le> 2 ^ 53"
    using assms by (metis of_int_abs of_int_le_iff of_int_numeral of_int_power)
  then have "\<bar>real_of_int n\<bar> \<le> 2 ^ 1023" by simp
  then show ?thesis
    by (simp add: is_double_def to_float_finite nearest_double_of_int [OF assms])
qed

lemma to_float_1 [simp]: "to_float 1 = Finite 1"
  using is_double_of_int [of 1] by (simp add: is_double_def)

lemma int_to_float_0 [simp]: "int_to_float 0 = Inr 0"
  by (simp add: int_to_float_def)

lemma int_to_float_exact:
  assumes "\<bar>k\<bar> \<le> 2 ^ 53"
  shows "int_to_float k = Inr (of_int k)"
  using is_double_of_int [OF assms] by (simp add: int_to_float_def is_double_def)

lemma int_to_float_cases:
  obtains (converted) "int_to_float k = Inr (nearest_double (of_int k))"
  | (overflow) "int_to_float k = Inl OverflowError"
  by (cases "of_int k :: real" rule: to_float_cases) (auto simp: int_to_float_def)

lemma int_to_float_sign:
  assumes "int_to_float k = Inr y"
  shows "(0 \<le> k \<longrightarrow> 0 \<le> y) \<and> (1 \<le> k \<longrightarrow> 1 \<le> y)"
proof -
  from assms have y: "y = nearest_double (of_int k)"
    by (cases k rule: int_to_float_cases) simp_all
  have "1 \<le> k \<Longrightarrow> nearest_double 1 \<le> nearest_double (of_int k)"
    by (intro nearest_double_mono) simp
  moreover have "nearest_double 1 = 1"
    using nearest_double_of_int [of 1] by simp
  ultimately show ?thesis by (auto simp: y nearest_double_nonneg)
qed

text \<open>The division by a constant and the power with an exponent \<open>\<ge> 0\<close>.\<close>

lemma float_div_const:
  "c \<noteq> 0 \<Longrightarrow> float_div x (Finite c) = Inr (float_quotient x (Finite c))"
  by (simp add: float_div_def)

lemma float_pow_0 [simp]: "float_pow x 0 = Inr (Finite 1)"
  by (simp add: float_pow_def)

lemma float_pow_nonneg:
  assumes "0 \<le> k"
  shows "float_pow (Finite b) k =
           (case int_to_float k of
              Inl e \<Rightarrow> Inl OverflowError
            | Inr y \<Rightarrow>
                (case to_float (b ^ nat \<lfloor>y\<rfloor>) of
                   Finite v \<Rightarrow> Inr (Finite v)
                 | _ \<Rightarrow> Inl OverflowError))"
proof (cases k rule: int_to_float_cases)
  case overflow
  then show ?thesis by (simp add: float_pow_def)
next
  case converted
  define j where "j = \<lfloor>nearest_double (real_of_int k)\<rfloor>"
  have j: "0 \<le> j" using int_to_float_sign [OF converted] assms by (simp add: j_def)
  have lhs: "float_pow (Finite b) k =
          (if j = 0 then Inr (Finite 1)
           else if b = 0 then (if j < 0 then Inl ZeroDivisionError else Inr (Finite 0))
           else case to_float (b powi j) of Finite v \<Rightarrow> Inr (Finite v) | _ \<Rightarrow> Inl OverflowError)"
    using converted by (simp add: float_pow_def Let_def j_def)
  have rhs: "(case int_to_float k of
              Inl e \<Rightarrow> Inl OverflowError
            | Inr y \<Rightarrow>
                (case to_float (b ^ nat \<lfloor>y\<rfloor>) of
                   Finite v \<Rightarrow> Inr (Finite v)
                 | _ \<Rightarrow> Inl OverflowError)) =
         (case to_float (b ^ nat j) of Finite v \<Rightarrow> Inr (Finite v) | _ \<Rightarrow> Inl OverflowError)"
    using converted by (simp add: j_def)
  show ?thesis
  proof (cases "j = 0")
    case True
    then show ?thesis unfolding lhs rhs by simp
  next
    case False
    with j have "0 < nat j" by simp
    with False j show ?thesis unfolding lhs rhs
      by (cases "b = 0") (simp_all add: power_int_nonneg_exp zero_power)
  qed
qed

lemma to_float_of_int:
  "\<bar>n\<bar> \<le> 2 ^ 53 \<Longrightarrow> to_float (of_int n) = Finite (of_int n)"
  using is_double_of_int [of n] by (simp add: is_double_def)

lemma to_float_numeral [simp]:
  "numeral w \<le> (2 :: int) ^ 53 \<Longrightarrow> to_float (numeral w) = Finite (numeral w)"
  "numeral w \<le> (2 :: int) ^ 53 \<Longrightarrow> to_float (- numeral w) = Finite (- numeral w)"
  using to_float_of_int [of "numeral w"] to_float_of_int [of "- numeral w"] by simp_all

lemma int_to_float_numeral [simp]:
  "numeral w \<le> (2 :: int) ^ 53 \<Longrightarrow> int_to_float (numeral w) = Inr (numeral w)"
  using int_to_float_exact [of "numeral w"] by simp

lemma to_float_minus_1 [simp]: "to_float (- 1) = Finite (- 1)"
  using to_float_of_int [of "- 1"] by simp

lemma int_to_float_1 [simp]: "int_to_float 1 = Inr 1"
  using int_to_float_exact [of 1] by simp

lemma to_float_overflow:
  assumes "2 ^ 1024 \<le> x"
  shows "to_float x = PosInf"
proof -
  have "nearest_double (2 powi 1024) = 2 powi 1024"
    by (rule nearest_double_power_int) simp
  then have "nearest_double (2 ^ 1024) = 2 ^ 1024" by simp
  with nearest_double_mono [OF assms] show ?thesis by (simp add: to_float_def)
qed

text \<open>
  The rate in percent of a finite float is a finite float, and so is 1 plus it.
\<close>

lemma rate_percent_finite:
  assumes "is_double rate"
  shows "float_div (Finite rate) (Finite 100) = Inr (Finite (nearest_double (rate / 100)))"
    and "\<bar>nearest_double (rate / 100)\<bar> \<le> 2 ^ 1018"
proof -
  have "\<bar>rate\<bar> < 2 ^ 1024" using assms by (rule is_double_bound)
  then have "\<bar>rate / 100\<bar> \<le> 2 ^ 1024 / 64" by (simp add: field_simps)
  then have small: "\<bar>rate / 100\<bar> \<le> 2 ^ 1018" by simp
  then have "\<bar>rate / 100\<bar> \<le> 2 powi 1018" by simp
  then have "\<bar>nearest_double (rate / 100)\<bar> \<le> 2 powi 1018"
    by (rule nearest_double_abs_le) simp
  then show "\<bar>nearest_double (rate / 100)\<bar> \<le> 2 ^ 1018" by simp
  from small have "\<bar>rate / 100\<bar> \<le> 2 ^ 1023" by simp
  then show "float_div (Finite rate) (Finite 100) = Inr (Finite (nearest_double (rate / 100)))"
    by (simp add: float_div_def float_quotient_def to_float_finite)
qed

lemma one_plus_finite:
  assumes "\<bar>r\<bar> \<le> 2 ^ 1018"
  shows "float_add (Finite 1) (Finite r) = Finite (nearest_double (1 + r))"
proof -
  have "\<bar>1 + r\<bar> \<le> 1 + 2 ^ 1018" using assms by simp
  then have "\<bar>1 + r\<bar> \<le> 2 ^ 1023" by simp
  then show ?thesis by (simp add: float_add_def to_float_finite)
qed

text \<open>The call on doubles, evaluated.\<close>

lemma lump_sum_growth_eval:
  assumes "0 \<le> years" "is_double rate"
  shows "lump_sum_growth p (Finite rate) years =
           (case int_to_float years of
              Inl e \<Rightarrow> Inl OverflowError
            | Inr y \<Rightarrow>
                (case to_float (nearest_double (1 + nearest_double (rate / 100)) ^ nat \<lfloor>y\<rfloor>) of
                   Finite v \<Rightarrow> Inr (float_mul p (Finite v))
                 | _ \<Rightarrow> Inl OverflowError))"
  unfolding lump_sum_growth_def rate_percent_finite(1) [OF assms(2)] sum.case
    one_plus_finite [OF rate_percent_finite(2) [OF assms(2)]] float_pow_nonneg [OF assms(1)]
  by (simp split: sum.splits pyfloat.splits)

text \<open>
  Monotonicity in the rate: every operation of \<^verbatim>\<open>lump_sum_growth\<close> is monotone on
  numbers \<open>\<ge> 0\<close>, and so is the rounding.
\<close>

lemma float_le_to_float_Finite:
  assumes "x \<le> y" "to_float y = Finite v" "0 \<le> x"
  shows "to_float x = Finite (nearest_double x) \<and> nearest_double x \<le> v \<and> 0 \<le> nearest_double x"
proof -
  from assms(2) have v: "v = nearest_double y" and "nearest_double y < 2 ^ 1024"
    by (auto simp: to_float_def Let_def split: if_splits)
  with nearest_double_mono [OF assms(1)] nearest_double_nonneg [OF assms(3)]
  show ?thesis by (simp add: to_float_def Let_def)
qed

lemma lump_sum_growth_mono:
  assumes "0 \<le> years" "0 \<le> p" "0 \<le> r1" "r1 \<le> r2" "is_double r1" "is_double r2"
  shows "case lump_sum_growth (Finite p) (Finite r2) years of
           Inl e \<Rightarrow> e = OverflowError
         | Inr v2 \<Rightarrow>
             (\<exists>v1. lump_sum_growth (Finite p) (Finite r1) years = Inr v1 \<and> float_le v1 v2)"
proof (cases years rule: int_to_float_cases)
  case overflow
  then show ?thesis by (simp add: lump_sum_growth_eval [OF assms(1) assms(6)])
next
  case converted
  define j where "j = nat \<lfloor>nearest_double (real_of_int years)\<rfloor>"
  let ?b1 = "nearest_double (1 + nearest_double (r1 / 100))"
  let ?b2 = "nearest_double (1 + nearest_double (r2 / 100))"
  have "nearest_double (r1 / 100) \<le> nearest_double (r2 / 100)"
    using assms(4) by (intro nearest_double_mono) simp
  then have b12: "?b1 \<le> ?b2" by (intro nearest_double_mono) simp
  have "0 \<le> nearest_double (r1 / 100)" using assms(3) by (intro nearest_double_nonneg) simp
  then have b1: "0 \<le> ?b1" by (intro nearest_double_nonneg) simp
  have pw: "?b1 ^ j \<le> ?b2 ^ j" using b12 b1 by (rule power_mono)
  have pw0: "0 \<le> ?b1 ^ j" using b1 by simp
  show ?thesis
  proof (cases "to_float (?b2 ^ j)")
    case (Finite v2)
    from float_le_to_float_Finite [OF pw Finite pw0]
    have f1: "to_float (?b1 ^ j) = Finite (nearest_double (?b1 ^ j))"
      and le: "nearest_double (?b1 ^ j) \<le> v2" and nn: "0 \<le> nearest_double (?b1 ^ j)" by simp_all
    have "p * nearest_double (?b1 ^ j) \<le> p * v2" using le assms(2) by (rule mult_left_mono)
    then have "float_le (to_float (p * nearest_double (?b1 ^ j))) (to_float (p * v2))"
      by (rule to_float_mono)
    then show ?thesis
      by (simp add: lump_sum_growth_eval [OF assms(1)] assms(5,6) converted j_def [symmetric]
          Finite f1 float_mul_def)
  qed (simp_all add: lump_sum_growth_eval [OF assms(1) assms(6)] converted j_def [symmetric])
qed

text \<open>
  With a positive exponent the power raises nothing but \<^verbatim>\<open>OverflowError\<close>, and
  \<^verbatim>\<open>sip_needed\<close> with \<open>years > 0\<close> fails only as its power does or by a zero
  difference.
\<close>

lemma float_pow_pos_error:
  assumes "0 < k" "float_pow x k = Inl e"
  shows "e = OverflowError"
proof (cases k rule: int_to_float_cases)
  case overflow
  with assms(2) show ?thesis by (simp add: float_pow_def)
next
  case converted
  define j where "j = \<lfloor>nearest_double (real_of_int k)\<rfloor>"
  have "1 \<le> nearest_double (real_of_int k)" using int_to_float_sign [OF converted] assms(1) by simp
  then have j: "1 \<le> j" unfolding j_def by simp
  have "float_pow x k =
          (case x of
             NaN \<Rightarrow> Inr NaN
           | PosInf \<Rightarrow> Inr PosInf
           | NegInf \<Rightarrow> Inr (if odd j then NegInf else PosInf)
           | Finite a \<Rightarrow>
               if a = 0 then Inr (Finite 0)
               else case to_float (a powi j) of Finite v \<Rightarrow> Inr (Finite v) | _ \<Rightarrow> Inl OverflowError)"
    using j converted by (simp add: float_pow_def Let_def j_def [symmetric] split: pyfloat.splits)
  with assms(2) show ?thesis by (auto split: pyfloat.splits if_splits)
qed

lemma sip_needed_eval:
  assumes "0 < years"
  shows "sip_needed goal rate years =
           (let r = float_quotient (float_quotient rate (Finite 100)) (Finite 12);
                n = years * 12
            in if r = Finite 0
               then case int_to_float n of
                      Inl e \<Rightarrow> Inl OverflowError
                    | Inr nf \<Rightarrow> Inr (float_quotient goal (Finite nf))
               else case float_pow (float_add (Finite 1) r) n of
                      Inl e \<Rightarrow> Inl OverflowError
                    | Inr p \<Rightarrow>
                        if float_sub p (Finite 1) = Finite 0 then Inl ZeroDivisionError
                        else Inr (float_quotient (float_mul goal r) (float_sub p (Finite 1))))"
proof -
  let ?r = "float_quotient (float_quotient rate (Finite 100)) (Finite 12)"
  let ?n = "years * 12"
  have n: "0 < ?n" using assms by simp
  have conv: "int_to_float ?n = Inl e \<Longrightarrow> e = OverflowError" for e
    by (cases ?n rule: int_to_float_cases) simp_all
  have nz: "int_to_float ?n = Inr nf \<Longrightarrow> nf \<noteq> 0" for nf
    using int_to_float_sign [of ?n nf] n by auto
  have pw: "float_pow (float_add (Finite 1) ?r) ?n = Inl e \<Longrightarrow> e = OverflowError" for e
    using n by (rule float_pow_pos_error)
  show ?thesis
    unfolding sip_needed_def
    by (auto simp: float_div_def Let_def dest: conv nz pw split: sum.splits)
qed

text \<open>
  A monthly rate that is not zero and yet too small to be seen in \<open>1 + r\<close>.
\<close>

lemma nearest_double_sandwich:
  assumes "2 powi k \<le> x" "x \<le> 2 powi l" "- 1074 \<le> k" "- 1074 \<le> l"
  shows "2 powi k \<le> nearest_double x" "nearest_double x \<le> 2 powi l"
  using nearest_double_mono [OF assms(1)] nearest_double_mono [OF assms(2)]
  by (simp_all add: nearest_double_power_int assms(3,4))

lemma nearest_double_just_above_1:
  assumes "1 \<le> x" "x \<le> 1 + 2 powi (- 54)"
  shows "nearest_double x = 1"
proof -
  define t :: real where "t = 1 + 2 powi (- 54)"
  have "2 powi 0 \<le> \<bar>t\<bar>" "\<bar>t\<bar> < 2 powi (0 + 1)" by (simp_all add: t_def)
  then have e: "float_exponent t = 0" using float_exponent_eq [of 0 t] by simp
  have t0: "t \<noteq> 0" by (simp add: t_def)
  have q: "t / 2 powi (0 - 52) = 2 ^ 52 + 1 / 4" by (simp add: t_def field_simps)
  have "\<lfloor>2 ^ 52 + 1 / 4 :: real\<rfloor> = 2 ^ 52" by (simp add: floor_eq_iff)
  then have "round_half_even (2 ^ 52 + 1 / 4) = 2 ^ 52"
    by (simp add: round_half_even_def Let_def)
  then have "real_of_int (round_half_even (t / 2 powi (0 - 52))) * 2 powi (0 - 52) = 1"
    unfolding q by simp
  then have top: "nearest_double t = 1"
    unfolding nearest_double_def e Let_def using t0 by (simp only: if_False)
  have one: "nearest_double 1 = 1" using nearest_double_of_int [of 1] by simp
  from nearest_double_mono [OF assms(1)] nearest_double_mono [OF assms(2) [folded t_def]] one top
  show ?thesis by simp
qed

lemma sip_needed_tiny_rate: "sip_needed (Finite 1000) (Finite (2 powi (- 50))) 1 = Inl ZeroDivisionError"
proof -
  define x :: real where "x = 2 powi (- 50)"
  define a where "a = nearest_double (x / 100)"
  define b where "b = nearest_double (a / 12)"
  have "2 powi (- 57) \<le> x / 100" "x / 100 \<le> 2 powi (- 56)"
    by (simp_all add: x_def)
  from nearest_double_sandwich [OF this]
  have a: "2 powi (- 57) \<le> a" "a \<le> 2 powi (- 56)" by (simp_all add: a_def)
  then have "2 powi (- 61) \<le> a / 12" "a / 12 \<le> 2 powi (- 59)" by simp_all
  from nearest_double_sandwich [OF this]
  have b: "2 powi (- 61) \<le> b" "b \<le> 2 powi (- 59)" by (simp_all add: b_def)
  have b0: "b \<noteq> 0" using b(1) by auto
  have "\<bar>x / 100\<bar> \<le> 2 ^ 1023" by (simp add: x_def)
  then have r100: "float_quotient (Finite x) (Finite 100) = Finite a"
    by (simp add: float_quotient_def a_def to_float_finite)
  have "\<bar>a / 12\<bar> \<le> 2 ^ 1023" using a by simp
  then have r: "float_quotient (Finite a) (Finite 12) = Finite b"
    by (simp add: float_quotient_def b_def to_float_finite)
  have "1 \<le> 1 + b" "1 + b \<le> 1 + 2 powi (- 54)" using b by simp_all
  then have "nearest_double (1 + b) = 1" by (rule nearest_double_just_above_1)
  moreover have "\<bar>1 + b\<bar> \<le> 2 ^ 1023" using b by simp
  ultimately have base: "to_float (1 + b) = Finite 1"
    by (simp add: to_float_finite)
  have "sip_needed (Finite 1000) (Finite x) 1 = Inl ZeroDivisionError"
    using sip_needed_eval [of 1 "Finite 1000" "Finite x"] b0
    by (simp add: r100 r base float_pow_nonneg float_sub_def float_neg_def float_add_def)
  then show ?thesis unfolding x_def .
qed





subsection \<open>The error of a rounding\<close>

text \<open>
  Rounding a number in the normal range changes it by a factor \<open>1 + \<delta>\<close> with
  \<^verbatim>\<open>|\<delta>| <= 2^-53\<close>.
\<close>

lemma round_half_even_error: "\<bar>of_int (round_half_even t) - t\<bar> \<le> 1 / 2"
  unfolding round_half_even_def Let_def by (auto; linarith)

lemma nearest_double_error:
  assumes "2 powi (- 1022) \<le> \<bar>x\<bar>"
  shows "\<bar>nearest_double x - x\<bar> \<le> 2 powi (- 53) * \<bar>x\<bar>"
proof -
  let ?e = "float_exponent x"
  let ?q = "(2::real) powi (?e - 52)"
  have q: "0 < ?q" by (rule zero_less_power_int) simp
  have "0 < (2::real) powi (- 1022)" by (rule zero_less_power_int) simp
  with assms have x: "x \<noteq> 0" by auto
  have "nearest_double x - x = (of_int (round_half_even (x / ?q)) - x / ?q) * ?q"
    using x q by (simp add: nearest_double_def Let_def algebra_simps)
  then have "\<bar>nearest_double x - x\<bar> = \<bar>of_int (round_half_even (x / ?q)) - x / ?q\<bar> * ?q"
    using q by (simp add: abs_mult)
  also have "\<dots> \<le> 1 / 2 * ?q"
    using round_half_even_error [of "x / ?q"] q by (intro mult_right_mono) simp_all
  also have "1 / 2 * ?q = 2 powi (- 53) * 2 powi ?e"
    using power_int_add [of "2::real" "- 53" ?e] power_int_add [of "2::real" "- 1" "?e - 52"]
    by (simp add: algebra_simps)
  also have "\<dots> \<le> 2 powi (- 53) * \<bar>x\<bar>"
    using float_exponent_lower [OF assms] by (intro mult_left_mono) simp_all
  finally show ?thesis .
qed

lemma rounding_factor:
  assumes "2 powi (- 1022) \<le> \<bar>x\<bar>" "\<bar>x\<bar> \<le> 2 ^ 1023"
  obtains \<delta> where "\<bar>\<delta>\<bar> \<le> 2 powi (- 53)" "to_float x = Finite (x * (1 + \<delta>))"
proof
  have "0 < (2::real) powi (- 1022)" by (rule zero_less_power_int) simp
  with assms(1) have x: "x \<noteq> 0" by auto
  let ?d = "(nearest_double x - x) / x"
  have "\<bar>?d\<bar> = \<bar>nearest_double x - x\<bar> / \<bar>x\<bar>" by (simp add: abs_divide)
  also have "\<dots> \<le> 2 powi (- 53)"
    using nearest_double_error [OF assms(1)] x by (simp add: pos_divide_le_eq)
  finally show "\<bar>?d\<bar> \<le> 2 powi (- 53)" .
  have "x * (1 + ?d) = nearest_double x" using x by (simp add: field_simps)
  then show "to_float x = Finite (x * (1 + ?d))"
    using to_float_finite [OF assms(2)] by simp
qed

lemma scaled_in_range:
  assumes "well_scaled y" "\<bar>c - 1\<bar> \<le> 1 / 2"
  shows "2 powi (- 1022) \<le> \<bar>y * c\<bar>" "\<bar>y * c\<bar> \<le> 2 ^ 1023"
proof -
  from assms(2) have c: "1 / 2 \<le> c" "c \<le> 2" by linarith+
  then have abs: "\<bar>y * c\<bar> = \<bar>y\<bar> * c" by (simp add: abs_mult)
  have lo: "2 powi (- 1021) \<le> \<bar>y\<bar>" and hi: "\<bar>y\<bar> \<le> 2 ^ 1022"
    using assms(1) by (simp_all add: well_scaled_def)
  have "(2::real) powi (- 1022) = 2 powi (- 1021) * (1 / 2)"
    using power_int_add [of "2::real" "- 1021" "- 1"] by simp
  also have "\<dots> \<le> \<bar>y\<bar> * c" using lo c by (intro mult_mono) simp_all
  finally show "2 powi (- 1022) \<le> \<bar>y * c\<bar>" by (simp add: abs)
  have "\<bar>y\<bar> * c \<le> 2 ^ 1022 * 2" using hi c by (intro mult_mono) simp_all
  then show "\<bar>y * c\<bar> \<le> 2 ^ 1023" by (simp add: abs)
qed

text \<open>The product of such factors.\<close>

lemma two_factors:
  fixes a b :: real
  assumes "\<bar>a\<bar> \<le> \<epsilon>" "\<bar>b\<bar> \<le> \<eta>"
  shows "\<bar>(1 + a) * (1 + b) - 1\<bar> \<le> (1 + \<epsilon>) * (1 + \<eta>) - 1"
proof -
  have "\<bar>a * b\<bar> \<le> \<epsilon> * \<eta>"
    unfolding abs_mult using assms by (intro mult_mono) simp_all
  moreover have "(1 + a) * (1 + b) - 1 = a + b + a * b" by (simp add: algebra_simps)
  moreover have "(1 + \<epsilon>) * (1 + \<eta>) - 1 = \<epsilon> + \<eta> + \<epsilon> * \<eta>" by (simp add: algebra_simps)
  ultimately show ?thesis using assms by linarith
qed

lemma factors_bound:
  fixes a b c d u :: real
  assumes "\<bar>a\<bar> \<le> u" "\<bar>b\<bar> \<le> u" "\<bar>c\<bar> \<le> u" "\<bar>d\<bar> \<le> u"
  shows "\<bar>(1 + a) * (1 + b) - 1\<bar> \<le> (1 + u) ^ 2 - 1"
    and "\<bar>(1 + a) * (1 + b) * (1 + c) - 1\<bar> \<le> (1 + u) ^ 3 - 1"
    and "\<bar>(1 + a) * (1 + b) * (1 + c) * (1 + d) - 1\<bar> \<le> (1 + u) ^ 4 - 1"
proof -
  show 2: "\<bar>(1 + a) * (1 + b) - 1\<bar> \<le> (1 + u) ^ 2 - 1"
    using two_factors [OF assms(1,2)] by (simp add: power2_eq_square)
  from two_factors [OF 2 assms(3)]
  show 3: "\<bar>(1 + a) * (1 + b) * (1 + c) - 1\<bar> \<le> (1 + u) ^ 3 - 1"
    by (simp add: power3_eq_cube power2_eq_square algebra_simps)
  from two_factors [OF 3 assms(4)]
  show "\<bar>(1 + a) * (1 + b) * (1 + c) * (1 + d) - 1\<bar> \<le> (1 + u) ^ 4 - 1"
    by (simp add: power4_eq_xxxx power3_eq_cube algebra_simps)
qed

lemma unit_roundoff_small: "(1 + 2 powi (- 53) :: real) ^ 3 - 1 \<le> 1 / 2"
  by (simp add: power3_eq_cube)

text \<open>
  The round trip of \<^verbatim>\<open>sip_needed\<close> through the annuity formula: four roundings.
\<close>

lemma round_trip_error:
  assumes r: "float_quotient (float_quotient (Finite rate) (Finite 100)) (Finite 12) = Finite r"
    and p: "float_pow (float_add (Finite 1) (Finite r)) (years * 12) = Inr p"
    and d: "float_sub p (Finite 1) = Finite d"
    and nz: "r \<noteq> 0" "d \<noteq> 0"
    and ws: "well_scaled goal" "well_scaled (goal * r)" "well_scaled (goal * r / d)"
  shows "\<exists>payment fv.
           sip_needed (Finite goal) (Finite rate) years = Inr (Finite payment) \<and>
           annuity_future_value (Finite payment) (Finite rate) years = Inr (Finite fv) \<and>
           \<bar>fv - goal\<bar> \<le> ((1 + 2 powi (- 53)) ^ 4 - 1) * \<bar>goal\<bar>"
proof -
  let ?u = "2 powi (- 53) :: real"
  note half = unit_roundoff_small
  have mono: "(1 + ?u) ^ 2 - 1 \<le> (1 + ?u) ^ 3 - 1" "?u \<le> (1 + ?u) ^ 3 - 1"
    by (simp_all add: power3_eq_cube power2_eq_square)
  \<comment> \<open>the product \<open>goal * r\<close>, rounded\<close>
  have "\<bar>(1::real) - 1\<bar> \<le> 1 / 2" by simp
  from scaled_in_range [OF ws(2) this]
  have "2 powi (- 1022) \<le> \<bar>goal * r\<bar>" "\<bar>goal * r\<bar> \<le> 2 ^ 1023" by (simp_all only: mult_1_right)
  then obtain \<delta>1 where \<delta>1: "\<bar>\<delta>1\<bar> \<le> ?u"
    and num: "to_float (goal * r) = Finite (goal * r * (1 + \<delta>1))"
    by (rule rounding_factor)
  \<comment> \<open>the quotient by \<open>d\<close>, rounded: the payment\<close>
  have c1: "\<bar>(1 + \<delta>1) - 1\<bar> \<le> 1 / 2" using \<delta>1 mono(2) half by simp
  have e2: "goal * r * (1 + \<delta>1) / d = goal * r / d * (1 + \<delta>1)" by simp
  from scaled_in_range [OF ws(3) c1]
  have "2 powi (- 1022) \<le> \<bar>goal * r * (1 + \<delta>1) / d\<bar>" "\<bar>goal * r * (1 + \<delta>1) / d\<bar> \<le> 2 ^ 1023"
    by (simp_all only: e2)
  then obtain \<delta>2 where \<delta>2: "\<bar>\<delta>2\<bar> \<le> ?u"
    and pay: "to_float (goal * r * (1 + \<delta>1) / d) = Finite (goal * r * (1 + \<delta>1) / d * (1 + \<delta>2))"
    by (rule rounding_factor)
  define payment where "payment = goal * r * (1 + \<delta>1) / d * (1 + \<delta>2)"
  \<comment> \<open>the round trip: the product with \<open>d\<close>, rounded\<close>
  have c2: "\<bar>(1 + \<delta>1) * (1 + \<delta>2) - 1\<bar> \<le> 1 / 2"
    using factors_bound(1) [OF \<delta>1 \<delta>2 \<delta>1 \<delta>1] mono(1) half by linarith
  have e3: "payment * d = goal * r * ((1 + \<delta>1) * (1 + \<delta>2))"
    using nz(2) by (simp add: payment_def)
  from scaled_in_range [OF ws(2) c2]
  have "2 powi (- 1022) \<le> \<bar>payment * d\<bar>" "\<bar>payment * d\<bar> \<le> 2 ^ 1023"
    by (simp_all only: e3)
  then obtain \<delta>3 where \<delta>3: "\<bar>\<delta>3\<bar> \<le> ?u"
    and t: "to_float (payment * d) = Finite (payment * d * (1 + \<delta>3))"
    by (rule rounding_factor)
  \<comment> \<open>the quotient by \<open>r\<close>, rounded: the future value\<close>
  have c3: "\<bar>(1 + \<delta>1) * (1 + \<delta>2) * (1 + \<delta>3) - 1\<bar> \<le> 1 / 2"
    using factors_bound(2) [OF \<delta>1 \<delta>2 \<delta>3 \<delta>1] half by linarith
  have e4: "payment * d * (1 + \<delta>3) / r = goal * ((1 + \<delta>1) * (1 + \<delta>2) * (1 + \<delta>3))"
    using nz(1) by (simp add: e3)
  from scaled_in_range [OF ws(1) c3]
  have "2 powi (- 1022) \<le> \<bar>payment * d * (1 + \<delta>3) / r\<bar>" "\<bar>payment * d * (1 + \<delta>3) / r\<bar> \<le> 2 ^ 1023"
    by (simp_all only: e4)
  then obtain \<delta>4 where \<delta>4: "\<bar>\<delta>4\<bar> \<le> ?u"
    and fv: "to_float (payment * d * (1 + \<delta>3) / r) = Finite (payment * d * (1 + \<delta>3) / r * (1 + \<delta>4))"
    by (rule rounding_factor)
  define fv' where "fv' = payment * d * (1 + \<delta>3) / r * (1 + \<delta>4)"
  have r': "float_div (Finite rate) (Finite 100) = Inr (float_quotient (Finite rate) (Finite 100))"
    "float_div (float_quotient (Finite rate) (Finite 100)) (Finite 12) = Inr (Finite r)"
    by (simp_all add: float_div_def r)
  have 1: "sip_needed (Finite goal) (Finite rate) years = Inr (Finite payment)"
    unfolding sip_needed_def r' sum.case Let_def
    using nz by (simp add: p d float_mul_def num float_div_def float_quotient_def pay payment_def)
  have 2: "annuity_future_value (Finite payment) (Finite rate) years = Inr (Finite fv')"
    unfolding annuity_future_value_def r' sum.case Let_def
    using nz by (simp add: p d float_mul_def t float_div_def float_quotient_def fv fv'_def)
  have "fv' = goal * ((1 + \<delta>1) * (1 + \<delta>2) * (1 + \<delta>3)) * (1 + \<delta>4)"
    unfolding fv'_def e4 ..
  then have "fv' - goal = goal * ((1 + \<delta>1) * (1 + \<delta>2) * (1 + \<delta>3) * (1 + \<delta>4) - 1)"
    by (simp add: algebra_simps)
  then have "\<bar>fv' - goal\<bar> = \<bar>goal\<bar> * \<bar>(1 + \<delta>1) * (1 + \<delta>2) * (1 + \<delta>3) * (1 + \<delta>4) - 1\<bar>"
    by (simp add: abs_mult)
  also have "\<dots> \<le> \<bar>goal\<bar> * ((1 + ?u) ^ 4 - 1)"
    using factors_bound(3) [OF \<delta>1 \<delta>2 \<delta>3 \<delta>4] by (intro mult_left_mono) simp_all
  finally have 3: "\<bar>fv' - goal\<bar> \<le> ((1 + ?u) ^ 4 - 1) * \<bar>goal\<bar>" by (simp add: mult.commute)
  from 1 2 3 show ?thesis by blast
qed

subsection \<open>Numerals\<close>

lemma nearest_double_1 [simp]: "nearest_double 1 = 1"
  using nearest_double_of_int [of 1] by simp

lemma nearest_double_numeral [simp]:
  "numeral w \<le> (2 :: int) ^ 53 \<Longrightarrow> nearest_double (numeral w) = numeral w"
  using nearest_double_of_int [of "numeral w"] by simp


section \<open>Properties of \<^verbatim>\<open>lump_sum_growth\<close>\<close>

subsection \<open>The closed form, rounded\<close>




subsection \<open>Growth with the rate\<close>

text \<open>
  With a negative principal or a negative monthly amount a higher rate gives a lower
  (more negative) value, so monotonicity in the rate does not hold for all values of the
  other arguments. And with a principal \<open>\<ge> 0\<close> the call at the higher rate may raise
  \<^verbatim>\<open>OverflowError\<close> where the call at the lower rate returns, so that there are no two
  values to compare.
\<close>

theorem growth_mono_in_rate_counterexample:
  "lump_sum_growth (Finite (- 100)) (Finite 0) 1 = Inr (Finite (- 100)) \<and>
   lump_sum_growth (Finite (- 100)) (Finite 100) 1 = Inr (Finite (- 200)) \<and>
   \<not> float_le (Finite (- 100)) (Finite (- 200)) \<and>
   \<not> savings_projection (- 1) 0 1 \<le> savings_projection (- 1) 1200 1 \<and>
   lump_sum_growth (Finite 1) (Finite 0) 1024 = Inr (Finite 1) \<and>
   lump_sum_growth (Finite 1) (Finite 100) 1024 = Inl OverflowError"
  by (simp add: lump_sum_growth_def float_div_def float_quotient_def float_add_def
      float_pow_nonneg float_mul_def float_le_def to_float_overflow
      savings_projection_def eval_nat_numeral)

text \<open>
  Claim C7, amended. For \<open>years \<ge> 0\<close>, a principal \<open>\<ge> 0\<close>, a monthly amount \<open>\<ge> 0\<close> and
  finite rates \<open>0 \<le> r1 \<le> r2\<close>: \<^verbatim>\<open>lump_sum_growth\<close> at \<open>r2\<close> either raises
  \<^verbatim>\<open>OverflowError\<close> or returns a value, and then \<^verbatim>\<open>lump_sum_growth\<close> at \<open>r1\<close> returns a
  value too, which is at most the value at \<open>r2\<close>; and \<^verbatim>\<open>savings_projection\<close> at \<open>r1\<close> is
  at most \<^verbatim>\<open>savings_projection\<close> at \<open>r2\<close>.
\<close>

theorem growth_mono_in_rate:
  assumes "0 \<le> years" "0 \<le> p" "0 \<le> m" "0 \<le> r1" "r1 \<le> r2" "is_double r1" "is_double r2"
  shows "(case lump_sum_growth (Finite p) (Finite r2) years of
            Inl e \<Rightarrow> e = OverflowError
          | Inr v2 \<Rightarrow>
              (\<exists>v1. lump_sum_growth (Finite p) (Finite r1) years = Inr v1 \<and> float_le v1 v2)) \<and>
         savings_projection m r1 years \<le> savings_projection m r2 years"
proof
  show "case lump_sum_growth (Finite p) (Finite r2) years of
          Inl e \<Rightarrow> e = OverflowError
        | Inr v2 \<Rightarrow>
            (\<exists>v1. lump_sum_growth (Finite p) (Finite r1) years = Inr v1 \<and> float_le v1 v2)"
    using assms(1,2,4,5,6,7) by (rule lump_sum_growth_mono)
  show "savings_projection m r1 years \<le> savings_projection m r2 years"
    using assms by (simp add: savings_projection_eq recurrence_balance_mono)
qed

theorem growth_mono_in_rate_witness:
  "(0 :: int) \<le> 1 \<and> (0 :: real) \<le> 100 \<and> (0 :: real) \<le> 1 \<and> (0 :: real) \<le> 100 \<and>
   is_double 0 \<and> is_double 100 \<and>
   lump_sum_growth (Finite 100) (Finite 100) 1 = Inr (Finite 200) \<and>
   (\<exists>v1. lump_sum_growth (Finite 100) (Finite 0) 1 = Inr v1 \<and> float_le v1 (Finite 200)) \<and>
   savings_projection 1 0 1 \<le> savings_projection 1 100 1"
  using growth_mono_in_rate [where years = 1 and p = 100 and m = 1 and ?r1.0 = 0 and ?r2.0 = 100]
  by (simp add: is_double_def lump_sum_growth_def float_div_def float_quotient_def float_add_def
      float_pow_nonneg float_mul_def)

section \<open>Properties of \<^verbatim>\<open>sip_needed\<close>\<close>

subsection \<open>The formula, rounded\<close>




subsection \<open>Round trip through the annuity formula\<close>

text \<open>
  For a rate \<open>> 0\<close> and \<open>years > 0\<close> there need not be a payment to feed back: at the
  rate \<^verbatim>\<open>2^-50\<close> the call raises \<^verbatim>\<open>ZeroDivisionError\<close>, and at the rate 1200 with 86 years
  it raises \<^verbatim>\<open>OverflowError\<close>.
\<close>

theorem sip_needed_round_trip_counterexample:
  "(0 :: real) < 2 powi (- 50) \<and> (0 :: real) < 1200 \<and> (0 :: int) < 1 \<and> (0 :: int) < 86 \<and>
   sip_needed (Finite 1000) (Finite (2 powi (- 50))) 1 = Inl ZeroDivisionError \<and>
   sip_needed (Finite 1000) (Finite 1200) 86 = Inl OverflowError"
proof (intro conjI)
  show "sip_needed (Finite 1000) (Finite (2 powi (- 50))) 1 = Inl ZeroDivisionError"
    by (rule sip_needed_tiny_rate)
qed (simp_all add: sip_needed_def float_div_def float_quotient_def float_add_def float_sub_def
       float_neg_def float_pow_nonneg float_mul_def to_float_overflow)

text \<open>
  Claim C5, amended. Let the monthly rate \<open>r\<close> (the float \<^verbatim>\<open>rate / 100 / 12\<close>) be finite
  and not zero, let the power \<^verbatim>\<open>(1 + r) ** n\<close> with \<open>n = years \<times> 12\<close> return, and let the
  difference \<open>d\<close> of it and 1 be finite and not zero; let the goal, \<open>goal \<times> r\<close> and
  \<open>goal \<times> r / d\<close> be well inside the range of the normal floats. Then \<^verbatim>\<open>sip_needed\<close>
  returns a finite payment, the closed form of the future value of an ordinary annuity
  at that payment, computed on floats, returns a finite value, and this value is the
  goal up to four roundings: the relative error is at most \<^verbatim>\<open>(1 + 2^-53)^4 - 1\<close>, less
  than \<^verbatim>\<open>4.5e-16\<close>.
\<close>

theorem sip_needed_round_trip:
  assumes "float_quotient (float_quotient (Finite rate) (Finite 100)) (Finite 12) = Finite r"
    and "float_pow (float_add (Finite 1) (Finite r)) (years * 12) = Inr p"
    and "float_sub p (Finite 1) = Finite d"
    and "r \<noteq> 0" "d \<noteq> 0"
    and "well_scaled goal" "well_scaled (goal * r)" "well_scaled (goal * r / d)"
  shows "\<exists>payment fv.
           sip_needed (Finite goal) (Finite rate) years = Inr (Finite payment) \<and>
           annuity_future_value (Finite payment) (Finite rate) years = Inr (Finite fv) \<and>
           \<bar>fv - goal\<bar> \<le> ((1 + 2 powi (- 53)) ^ 4 - 1) * \<bar>goal\<bar>"
  using assms by (rule round_trip_error)

text \<open>
  The goal 4095 at 1200 percent for one year: \<open>r\<close> is 1, the power is 4096 and \<open>d\<close> is
  4095.
\<close>

theorem sip_needed_round_trip_witness:
  "float_quotient (float_quotient (Finite 1200) (Finite 100)) (Finite 12) = Finite 1 \<and>
   float_pow (float_add (Finite 1) (Finite 1)) (1 * 12) = Inr (Finite 4096) \<and>
   float_sub (Finite 4096) (Finite 1) = Finite 4095 \<and>
   well_scaled 4095 \<and> well_scaled (4095 * 1) \<and> well_scaled (4095 * 1 / 4095) \<and>
   (\<exists>payment fv.
      sip_needed (Finite 4095) (Finite 1200) 1 = Inr (Finite payment) \<and>
      annuity_future_value (Finite payment) (Finite 1200) 1 = Inr (Finite fv) \<and>
      \<bar>fv - 4095\<bar> \<le> ((1 + 2 powi (- 53)) ^ 4 - 1) * \<bar>4095\<bar>)"
proof -
  have h: "float_quotient (float_quotient (Finite 1200) (Finite 100)) (Finite 12) = Finite 1"
    "float_pow (float_add (Finite 1) (Finite 1)) (1 * 12) = Inr (Finite 4096)"
    "float_sub (Finite 4096) (Finite 1) = Finite 4095"
    "(1 :: real) \<noteq> 0" "(4095 :: real) \<noteq> 0"
    "well_scaled 4095" "well_scaled (4095 * 1)" "well_scaled (4095 * 1 / 4095)"
    by (simp_all add: float_quotient_def float_add_def float_pow_nonneg float_sub_def
        float_neg_def well_scaled_def)
  from sip_needed_round_trip [OF h] h show ?thesis by blast
qed

subsection \<open>Zero years\<close>

text \<open>
  Claim C10. For every goal amount and every annual rate, \<^verbatim>\<open>sip_needed\<close> with
  \<open>years = 0\<close> fails with a division by zero: when the monthly rate is 0 it divides the
  goal by \<open>n = 0\<close>, otherwise by \<^verbatim>\<open>(1 + r)^0 - 1\<close>, which is 0.
\<close>

theorem sip_needed_zero_years_fails:
  "sip_needed goal rate 0 = Inl ZeroDivisionError"
  by (simp add: sip_needed_def float_div_def float_sub_def float_neg_def float_add_def Let_def)

end
